theory Spec2Isabelle
  imports Main "HOL-Library.AList" "HOL-Library.Product_Lexorder"
begin

unbundle bit_operations_syntax

section \<open>Distance-vector router (lab02/roteador.py)\<close>

text \<open>
  A shallow embedding of the routing-table engine of \<^verbatim>\<open>src/lab02/roteador.py\<close>:
  the construction of a router (\<^verbatim>\<open>Router.__init__\<close>), the merge of a received
  advertisement (\<^verbatim>\<open>receive_update\<close>), the summarization of a table
  (\<^verbatim>\<open>Router.summarize_table\<close>) and the per-neighbour advertisement with poison
  reverse (\<^verbatim>\<open>Router.send_updates_to_neighbors\<close>).

  Python dictionaries keep insertion order, and the order is observable (iteration in
  \<^verbatim>\<open>summarize_table\<close>, ties of \<^verbatim>\<open>min\<close>), so a dictionary is an association list
  with pairwise distinct keys: \<open>map_of\<close> reads a key, \<open>AList.update\<close> writes one
  (in place when the key exists, at the end otherwise) and \<open>AList.delete\<close> removes one.
  Python integers are \<open>int\<close>. Exceptions are values of \<open>py_error\<close>.
\<close>

subsection \<open>Data model\<close>

text \<open>A route: the value \<^verbatim>\<open>{'cost': c, 'next_hop': h}\<close> stored under a destination.\<close>

record entry =
  cost :: int
  next_hop :: string

type_synonym table = "(string \<times> entry) list"

text \<open>The fields of a \<^verbatim>\<open>Router\<close> object.\<close>

record router =
  my_address :: string
  neighbors :: "(string \<times> int) list"
  my_network :: string
  update_interval :: int
  routing_table :: table

text \<open>
  A parsed JSON document, as \<^verbatim>\<open>request.json\<close> delivers it: \<^verbatim>\<open>None\<close>, a bool, an
  integer, a string, a list or a dictionary. JSON numbers with a fractional part (Python
  floats) are outside the model.
\<close>

datatype json =
    JNull
  | JBool bool
  | JInt int
  | JStr string
  | JList "json list"
  | JObj "(string \<times> json) list"

datatype py_error = AttributeError | TypeError | ValueError

text \<open>A Flask response \<^verbatim>\<open>jsonify(body), status\<close>.\<close>

datatype response = Response (body: json) (status: nat)

definition INFINITY :: int where
  "INFINITY = 16"

subsection \<open>Router construction\<close>

text \<open>
  \<^verbatim>\<open>Router.__init__\<close>, lines 58 to 71: the table starts empty, receives the route to the
  administered network and then one route per neighbour, in the order of
  \<^verbatim>\<open>neighbors.items()\<close>. Nothing in the constructor inspects \<^verbatim>\<open>my_network\<close>, and no
  statement of it raises; the thread it starts is not part of the model.
\<close>

definition Router_init :: "string \<Rightarrow> (string \<times> int) list \<Rightarrow> string \<Rightarrow> int \<Rightarrow> router" where
  "Router_init address nbrs network interval =
     \<lparr> my_address = address,
       neighbors = nbrs,
       my_network = network,
       update_interval = interval,
       routing_table =
         foldl (\<lambda>rt (neighbor, c). AList.update neighbor \<lparr>cost = c, next_hop = neighbor\<rparr> rt)
           (AList.update network \<lparr>cost = 0, next_hop = address\<rparr> [])
           nbrs \<rparr>"

subsection \<open>Receiving an advertisement\<close>

text \<open>Python truth value of a JSON value (\<^verbatim>\<open>not x\<close> is its negation).\<close>

fun truthy :: "json \<Rightarrow> bool" where
  "truthy JNull = False"
| "truthy (JBool b) = b"
| "truthy (JInt n) = (n \<noteq> 0)"
| "truthy (JStr s) = (s \<noteq> [])"
| "truthy (JList xs) = (xs \<noteq> [])"
| "truthy (JObj kvs) = (kvs \<noteq> [])"

text \<open>
  \<^verbatim>\<open>x.get(key, default)\<close>: only a dictionary has the method; on any other value the
  attribute lookup raises \<^verbatim>\<open>AttributeError\<close>.
\<close>

fun dict_get :: "json \<Rightarrow> string \<Rightarrow> json \<Rightarrow> py_error + json" where
  "dict_get (JObj kvs) key dflt =
     Inr (case map_of kvs key of None \<Rightarrow> dflt | Some v \<Rightarrow> v)"
| "dict_get _ key dflt = Inl AttributeError"

text \<open>\<^verbatim>\<open>isinstance(x, dict)\<close>.\<close>

fun is_dict :: "json \<Rightarrow> bool" where
  "is_dict (JObj kvs) = True"
| "is_dict _ = False"

text \<open>
  \<^verbatim>\<open>sender_address in router_instance.neighbors\<close> followed by
  \<^verbatim>\<open>router_instance.neighbors[sender_address]\<close>. The keys of \<^verbatim>\<open>neighbors\<close> are strings;
  a list or a dictionary is unhashable and the membership test raises \<^verbatim>\<open>TypeError\<close>;
  any other value that is not a string is hashable and equal to no key.
\<close>

fun neighbor_cost :: "(string \<times> int) list \<Rightarrow> json \<Rightarrow> py_error + int option" where
  "neighbor_cost nbrs (JStr s) = Inr (map_of nbrs s)"
| "neighbor_cost nbrs (JList xs) = Inl TypeError"
| "neighbor_cost nbrs (JObj kvs) = Inl TypeError"
| "neighbor_cost nbrs _ = Inr None"

text \<open>
  \<^verbatim>\<open>custo_link + custo_recebido\<close>: an integer is added, a bool counts as 0 or 1, and
  a string, \<^verbatim>\<open>None\<close>, a list or a dictionary raises \<^verbatim>\<open>TypeError\<close>.
\<close>

fun add_cost :: "int \<Rightarrow> json \<Rightarrow> py_error + int" where
  "add_cost custo_link (JInt n) = Inr (custo_link + n)"
| "add_cost custo_link (JBool b) = Inr (custo_link + (if b then 1 else 0))"
| "add_cost custo_link _ = Inl TypeError"

text \<open>
  The body of the loop of \<^verbatim>\<open>receive_update\<close>, lines 260 to 293, on the pair of the
  routing table and the flag \<^verbatim>\<open>tabela_mudou\<close>.
\<close>

fun merge_route ::
  "string \<Rightarrow> int \<Rightarrow> string \<Rightarrow> json \<Rightarrow> table \<times> bool \<Rightarrow> py_error + (table \<times> bool)" where
  "merge_route sender_address custo_link network info (rt, tabela_mudou) =
     (case dict_get info ''cost'' (JInt INFINITY) of
        Inl e \<Rightarrow> Inl e
      | Inr custo_recebido \<Rightarrow>
          (case add_cost custo_link custo_recebido of
             Inl e \<Rightarrow> Inl e
           | Inr soma \<Rightarrow>
               (let novo_custo = (if soma > INFINITY then INFINITY else soma) in
                case map_of rt network of
                  None \<Rightarrow>
                    Inr (AList.update network
                           \<lparr>cost = novo_custo, next_hop = sender_address\<rparr> rt, True)
                | Some atual \<Rightarrow>
                    if novo_custo < cost atual then
                      Inr (AList.update network
                             \<lparr>cost = novo_custo, next_hop = sender_address\<rparr> rt, True)
                    else if next_hop atual = sender_address then
                      Inr (AList.update network (atual\<lparr>cost := novo_custo\<rparr>) rt, True)
                    else Inr (rt, tabela_mudou))))"

text \<open>
  The loop \<^verbatim>\<open>for network, info in sender_table.items()\<close>. An exception leaves the loop
  with the routes merged so far still in the table.
\<close>

fun process_routes ::
  "string \<Rightarrow> int \<Rightarrow> (string \<times> json) list \<Rightarrow> table \<times> bool \<Rightarrow> (table \<times> bool) \<times> py_error option" where
  "process_routes sender_address custo_link [] st = (st, None)"
| "process_routes sender_address custo_link ((network, info) # rest) st =
     (case merge_route sender_address custo_link network info st of
        Inl e \<Rightarrow> (st, Some e)
      | Inr st' \<Rightarrow> process_routes sender_address custo_link rest st')"

definition bad_request :: "string \<Rightarrow> response" where
  "bad_request msg = Response (JObj [(''error'', JStr msg)]) 400"

definition ignored :: response where
  "ignored = Response (JObj [(''status'', JStr ''ignored'')]) 200"

definition success :: response where
  "success =
     Response (JObj [(''status'', JStr ''success''), (''message'', JStr ''Update received'')]) 200"

text \<open>
  The endpoint \<^verbatim>\<open>receive_update\<close>, lines 210 to 299, on the router and the value of
  \<^verbatim>\<open>request.json\<close>. It returns the router afterwards and either the response or the
  exception that escapes the handler. A neighbour key is a string and the table has
  passed \<^verbatim>\<open>isinstance\<close>, so the last branch of the inner case is never taken.
\<close>

definition receive_update :: "router \<Rightarrow> json \<Rightarrow> router \<times> (py_error + response)" where
  "receive_update r request_json =
     (if \<not> truthy request_json then (r, Inr (bad_request ''Invalid request''))
      else
        case dict_get request_json ''sender_address'' JNull of
          Inl e \<Rightarrow> (r, Inl e)
        | Inr sender_address \<Rightarrow>
            (case dict_get request_json ''routing_table'' JNull of
               Inl e \<Rightarrow> (r, Inl e)
             | Inr sender_table \<Rightarrow>
                 if \<not> truthy sender_address \<or> \<not> is_dict sender_table
                 then (r, Inr (bad_request ''Missing sender_address or routing_table''))
                 else
                   (case neighbor_cost (neighbors r) sender_address of
                      Inl e \<Rightarrow> (r, Inl e)
                    | Inr None \<Rightarrow> (r, Inr ignored)
                    | Inr (Some custo_link) \<Rightarrow>
                        (case (sender_address, sender_table) of
                           (JStr sender, JObj routes) \<Rightarrow>
                             (case process_routes sender custo_link routes
                                     (routing_table r, False) of
                                (st, Some e) \<Rightarrow> (r\<lparr>routing_table := fst st\<rparr>, Inl e)
                              | (st, None) \<Rightarrow> (r\<lparr>routing_table := fst st\<rparr>, Inr success))
                         | _ \<Rightarrow> (r, Inl TypeError)))))"

subsection \<open>IP networks\<close>

text \<open>
  \<^verbatim>\<open>summarize_table\<close> relies on Python's standard module \<^verbatim>\<open>ipaddress\<close>. Its network
  objects and the functions the router calls are modelled here after the module's
  source (CPython 3.11): a network is its version, its network address as an integer and
  its prefix length. The module's integers are unbounded; addresses are natural numbers.
\<close>

datatype ip_version = IPv4 | IPv6

fun max_prefixlen :: "ip_version \<Rightarrow> nat" where
  "max_prefixlen IPv4 = 32"
| "max_prefixlen IPv6 = 128"

definition ALL_ONES :: "ip_version \<Rightarrow> nat" where
  "ALL_ONES v = 2 ^ max_prefixlen v - 1"

datatype network = Network (version: ip_version) (network_address: nat) (prefixlen: nat)

text \<open>\<^verbatim>\<open>_ip_int_from_prefix\<close>: \<^verbatim>\<open>_ALL_ONES ^ (_ALL_ONES >> prefixlen)\<close>.\<close>

definition netmask :: "network \<Rightarrow> nat" where
  "netmask n = ALL_ONES (version n) XOR drop_bit (prefixlen n) (ALL_ONES (version n))"

definition hostmask :: "network \<Rightarrow> nat" where
  "hostmask n = netmask n XOR ALL_ONES (version n)"

definition broadcast_address :: "network \<Rightarrow> nat" where
  "broadcast_address n = network_address n OR hostmask n"

text \<open>
  \<^verbatim>\<open>supernet()\<close> with the default \<^verbatim>\<open>prefixlen_diff=1\<close>: a network of prefix length 0
  is its own supernet.
\<close>

definition supernet :: "network \<Rightarrow> network" where
  "supernet n =
     (if prefixlen n = 0 then n
      else Network (version n) (network_address n AND push_bit 1 (netmask n)) (prefixlen n - 1))"

text \<open>
  \<^verbatim>\<open>a.subnet_of(b)\<close>, that is \<^verbatim>\<open>_is_subnet_of(a, b)\<close>: networks of different versions
  raise \<^verbatim>\<open>TypeError\<close>.
\<close>

definition subnet_of :: "network \<Rightarrow> network \<Rightarrow> py_error + bool" where
  "subnet_of a b =
     (if version a \<noteq> version b then Inl TypeError
      else Inr (network_address b \<le> network_address a \<and>
                broadcast_address b \<ge> broadcast_address a))"

text \<open>\<^verbatim>\<open>int.bit_length()\<close> of a natural number.\<close>

fun bit_length :: "nat \<Rightarrow> nat" where
  "bit_length n = (if n = 0 then 0 else Suc (bit_length (n div 2)))"

declare bit_length.simps [simp del]

text \<open>
  \<^verbatim>\<open>_count_righthand_zero_bits(number, bits)\<close>: the number of zero bits on the right
  hand side of \<open>number\<close>, at most \<open>bits\<close>. The module computes it as the bit length of
  \<^verbatim>\<open>~number & (number - 1)\<close>; here the zero bits are counted.
\<close>

fun righthand_zero_bits :: "nat \<Rightarrow> nat" where
  "righthand_zero_bits n =
     (if n = 0 \<or> odd n then 0 else Suc (righthand_zero_bits (n div 2)))"

declare righthand_zero_bits.simps [simp del]

definition count_righthand_zero_bits :: "nat \<Rightarrow> nat \<Rightarrow> nat" where
  "count_righthand_zero_bits number bits =
     (if number = 0 then bits else min bits (righthand_zero_bits number))"

text \<open>
  The loop of \<^verbatim>\<open>summarize_address_range(first, last)\<close> on the integers of the two
  addresses (the callers pass \<open>first \<le> last\<close> of one version).
\<close>

function summarize_address_range :: "ip_version \<Rightarrow> nat \<Rightarrow> nat \<Rightarrow> network list" where
  "summarize_address_range v first_int last_int =
     (if first_int \<le> last_int then
        (let ip_bits = max_prefixlen v;
             nbits = min (count_righthand_zero_bits first_int ip_bits)
                         (bit_length (last_int - first_int + 1) - 1);
             net = Network v first_int (ip_bits - nbits);
             next_int = first_int + 2 ^ nbits
         in if next_int - 1 = ALL_ONES v then [net]
            else net # summarize_address_range v next_int last_int)
      else [])"
  by pat_completeness auto
termination
  by (relation "measure (\<lambda>(v, first_int, last_int). Suc last_int - first_int)")
    (auto intro!: diff_less_mono2)

declare summarize_address_range.simps [simp del]

text \<open>
  \<^verbatim>\<open>_find_address_range(addresses)\<close>: the runs of consecutive integers of a list of
  addresses, each as its first and last address.
\<close>

fun find_address_range_loop :: "nat \<Rightarrow> nat \<Rightarrow> nat list \<Rightarrow> (nat \<times> nat) list" where
  "find_address_range_loop first_ip last_ip [] = [(first_ip, last_ip)]"
| "find_address_range_loop first_ip last_ip (ip # it) =
     (if ip \<noteq> last_ip + 1 then (first_ip, last_ip) # find_address_range_loop ip ip it
      else find_address_range_loop first_ip ip it)"

fun find_address_range :: "nat list \<Rightarrow> (nat \<times> nat) list" where
  "find_address_range [] = []"
| "find_address_range (ip # it) = find_address_range_loop ip ip it"

text \<open>
  The first loop of \<^verbatim>\<open>collapse_addresses\<close>: networks of full prefix length go to
  \<^verbatim>\<open>ips\<close> as addresses (a version and an integer), the others to \<^verbatim>\<open>nets\<close>; each is
  compared with the last element of its list and a different version raises
  \<^verbatim>\<open>TypeError\<close>.
\<close>

fun split_addresses ::
  "network list \<Rightarrow> (ip_version \<times> nat) list \<Rightarrow> network list \<Rightarrow>
     py_error + ((ip_version \<times> nat) list \<times> network list)" where
  "split_addresses [] ips nets = Inr (ips, nets)"
| "split_addresses (ip # rest) ips nets =
     (if prefixlen ip = max_prefixlen (version ip) then
        (if ips \<noteq> [] \<and> fst (last ips) \<noteq> version ip then Inl TypeError
         else split_addresses rest (ips @ [(version ip, network_address ip)]) nets)
      else
        (if nets \<noteq> [] \<and> version (last nets) \<noteq> version ip then Inl TypeError
         else split_addresses rest ips (nets @ [ip])))"

text \<open>
  The first loop of \<^verbatim>\<open>_collapse_addresses_internal\<close>. The list \<open>to_merge\<close> is the
  stack of the source with its top (the end of the Python list) first; \<open>subnets\<close> is
  the dictionary from a supernet to the one network stored under it.
\<close>

function merge_subnets ::
  "network list \<Rightarrow> (network \<times> network) list \<Rightarrow> (network \<times> network) list" where
  "merge_subnets [] subnets = subnets"
| "merge_subnets (net # to_merge) subnets =
     (case map_of subnets (supernet net) of
        None \<Rightarrow> merge_subnets to_merge (AList.update (supernet net) net subnets)
      | Some existing \<Rightarrow>
          if existing \<noteq> net
          then merge_subnets (supernet net # to_merge) (AList.delete (supernet net) subnets)
          else merge_subnets to_merge subnets)"
  by pat_completeness auto
termination
proof (relation "measure (\<lambda>(to_merge, subnets).
          2 * sum_list (map (\<lambda>n. Suc (prefixlen n)) to_merge) + length subnets)", goal_cases)
  case 1
  show ?case by simp
next
  case (2 net to_merge subnets)
  have "length (AList.update (supernet net) net subnets) \<le> Suc (length subnets)"
    by (induction subnets) auto
  then show ?case by simp
next
  case (3 net to_merge subnets existing)
  from 3(1) have "(supernet net, existing) \<in> set subnets"
    by (rule map_of_SomeD)
  then have "length (AList.delete (supernet net) subnets) < length subnets"
    unfolding AList.delete_eq by (rule length_filter_less) simp
  moreover have "prefixlen (supernet net) \<le> prefixlen net"
    by (simp add: supernet_def)
  ultimately show ?case by simp
next
  case (4 net to_merge subnets existing)
  show ?case by simp
qed

text \<open>
  \<^verbatim>\<open>sorted(subnets.values())\<close>: networks are ordered by network address, then by
  netmask; comparing networks of different versions raises \<^verbatim>\<open>TypeError\<close>, which a
  sort of a list with both versions cannot avoid.
\<close>

definition sorted_networks :: "network list \<Rightarrow> py_error + network list" where
  "sorted_networks nets =
     (if \<exists>a \<in> set nets. \<exists>b \<in> set nets. version a \<noteq> version b then Inl TypeError
      else Inr (sort_key (\<lambda>n. (network_address n, netmask n)) nets))"

text \<open>The second loop of \<^verbatim>\<open>_collapse_addresses_internal\<close>, which skips subsumed subnets.\<close>

fun skip_subsumed :: "network option \<Rightarrow> network list \<Rightarrow> network list" where
  "skip_subsumed lst [] = []"
| "skip_subsumed lst (net # nets) =
     (case lst of
        None \<Rightarrow> net # skip_subsumed (Some net) nets
      | Some l \<Rightarrow>
          if broadcast_address l \<ge> broadcast_address net then skip_subsumed lst nets
          else net # skip_subsumed (Some net) nets)"

definition collapse_addresses_internal :: "network list \<Rightarrow> py_error + network list" where
  "collapse_addresses_internal addresses =
     (case sorted_networks (map snd (merge_subnets (rev addresses) [])) of
        Inl e \<Rightarrow> Inl e
      | Inr nets \<Rightarrow> Inr (skip_subsumed None nets))"

text \<open>
  \<^verbatim>\<open>list(ipaddress.collapse_addresses(addresses))\<close>. The addresses in \<^verbatim>\<open>ips\<close> have one
  version; \<^verbatim>\<open>sorted(set(ips))\<close> orders their integers without repetition.
\<close>

definition collapse_addresses :: "network list \<Rightarrow> py_error + network list" where
  "collapse_addresses addresses =
     (case split_addresses addresses [] [] of
        Inl e \<Rightarrow> Inl e
      | Inr (ips, nets) \<Rightarrow>
          (let addrs =
             (case ips of
                [] \<Rightarrow> []
              | (v, a) # others \<Rightarrow>
                  concat (map (\<lambda>(first_ip, last_ip). summarize_address_range v first_ip last_ip)
                            (find_address_range (sort (remdups (map snd ips))))))
           in collapse_addresses_internal (addrs @ nets)))"

subsection \<open>The IPv4 notation\<close>

text \<open>\<^verbatim>\<open>s.split(c)\<close> on a single character.\<close>

fun split_on :: "char \<Rightarrow> string \<Rightarrow> string list" where
  "split_on c [] = [[]]"
| "split_on c (x # xs) =
     (if x = c then [] # split_on c xs
      else (case split_on c xs of [] \<Rightarrow> [[x]] | p # ps \<Rightarrow> (x # p) # ps))"

text \<open>An ASCII decimal digit, and \<^verbatim>\<open>int(s)\<close> on a string of such digits.\<close>

definition isdigit :: "char \<Rightarrow> bool" where
  "isdigit c \<longleftrightarrow> (48::nat) \<le> of_char c \<and> (of_char c :: nat) \<le> 57"

definition int_of_digits :: "string \<Rightarrow> nat" where
  "int_of_digits s = foldl (\<lambda>n c. 10 * n + (of_char c - 48)) 0 s"

text \<open>
  \<^verbatim>\<open>_parse_octet\<close>, \<^verbatim>\<open>_ip_int_from_string\<close> and \<^verbatim>\<open>_prefix_from_prefix_string\<close> of the
  IPv4 classes; \<open>None\<close> where they raise.
\<close>

definition parse_octet :: "string \<Rightarrow> nat option" where
  "parse_octet octet_str =
     (if octet_str = [] then None
      else if \<not> list_all isdigit octet_str then None
      else if length octet_str > 3 then None
      else if octet_str \<noteq> ''0'' \<and> hd octet_str = CHR ''0'' then None
      else if int_of_digits octet_str > 255 then None
      else Some (int_of_digits octet_str))"

definition ip_int_from_string :: "string \<Rightarrow> nat option" where
  "ip_int_from_string ip_str =
     (case map parse_octet (split_on CHR ''.'' ip_str) of
        [Some a, Some b, Some c, Some d] \<Rightarrow> Some (((a * 256 + b) * 256 + c) * 256 + d)
      | _ \<Rightarrow> None)"

definition prefix_from_prefix_string :: "string \<Rightarrow> nat option" where
  "prefix_from_prefix_string prefixlen_str =
     (if prefixlen_str = [] \<or> \<not> list_all isdigit prefixlen_str then None
      else if int_of_digits prefixlen_str > 32 then None
      else Some (int_of_digits prefixlen_str))"

text \<open>
  \<^verbatim>\<open>ipaddress.ip_network(address, strict=False)\<close> on the strings the examples below
  use: a dotted-quad IPv4 address, alone (prefix length 32) or followed by a slash and
  a decimal prefix length; host bits are masked off. A mask in dotted-quad form and the
  IPv6 notation, which the module also accepts, are not covered and give \<open>None\<close>
  here. The properties below are stated for an arbitrary parser; this one only
  instantiates them on concrete IPv4 tables.
\<close>

definition ip_network_v4 :: "string \<Rightarrow> network option" where
  "ip_network_v4 address =
     (case split_on CHR ''/'' address of
        [addr_str] \<Rightarrow>
          (case ip_int_from_string addr_str of
             None \<Rightarrow> None
           | Some packed \<Rightarrow> Some (Network IPv4 packed 32))
      | [addr_str, mask_str] \<Rightarrow>
          (case ip_int_from_string addr_str of
             None \<Rightarrow> None
           | Some packed \<Rightarrow>
               (case prefix_from_prefix_string mask_str of
                  None \<Rightarrow> None
                | Some p \<Rightarrow> Some (Network IPv4 (packed AND netmask (Network IPv4 packed p)) p)))
      | _ \<Rightarrow> None)"

text \<open>\<^verbatim>\<open>str\<close> of a natural number and of an IPv4 network.\<close>

fun str_nat :: "nat \<Rightarrow> string" where
  "str_nat n =
     (if n < 10 then [''0123456789'' ! n]
      else str_nat (n div 10) @ [''0123456789'' ! (n mod 10)])"

declare str_nat.simps [simp del]

definition str_network_v4 :: "network \<Rightarrow> string" where
  "str_network_v4 n =
     str_nat (network_address n div 16777216 mod 256) @ ''.'' @
     str_nat (network_address n div 65536 mod 256) @ ''.'' @
     str_nat (network_address n div 256 mod 256) @ ''.'' @
     str_nat (network_address n mod 256) @ ''/'' @ str_nat (prefixlen n)"

subsection \<open>Summarization\<close>

text \<open>
  \<^verbatim>\<open>min(xs, key=f)\<close> on a list that is not empty, given as its first element and the
  rest: the first element with the least key.
\<close>

fun min_key :: "('a \<Rightarrow> int) \<Rightarrow> 'a \<Rightarrow> 'a list \<Rightarrow> 'a" where
  "min_key f best [] = best"
| "min_key f best (x # xs) = min_key f (if f x < f best then x else best) xs"

text \<open>
  The first loop of \<^verbatim>\<open>summarize_table\<close>, lines 144 to 149, which fills the dictionary
  \<^verbatim>\<open>redes_obj\<close>. The parser \<^verbatim>\<open>ipaddress.ip_network(net, strict=False)\<close> is the
  parameter \<open>ip_network\<close>: it gives \<open>None\<close> where the module raises \<^verbatim>\<open>ValueError\<close>.
\<close>

fun parse_table ::
  "(string \<Rightarrow> network option) \<Rightarrow> table \<Rightarrow> (network \<times> entry) list \<Rightarrow> (network \<times> entry) list" where
  "parse_table ip_network [] redes_obj = redes_obj"
| "parse_table ip_network ((net, info) # rest) redes_obj =
     (case ip_network net of
        None \<Rightarrow> parse_table ip_network rest redes_obj
      | Some n \<Rightarrow> parse_table ip_network rest (AList.update n info redes_obj))"

text \<open>
  The list \<^verbatim>\<open>redes_contidas\<close>, lines 159 to 162, with the entry \<^verbatim>\<open>redes_obj[net]\<close>
  beside each network.
\<close>

fun redes_contidas :: "(network \<times> entry) list \<Rightarrow> network \<Rightarrow> py_error + (network \<times> entry) list" where
  "redes_contidas [] sum_net = Inr []"
| "redes_contidas ((net, info) # rest) sum_net =
     (case subnet_of net sum_net of
        Inl e \<Rightarrow> Inl e
      | Inr b \<Rightarrow>
          (case redes_contidas rest sum_net of
             Inl e \<Rightarrow> Inl e
           | Inr found \<Rightarrow> Inr (if b then (net, info) # found else found)))"

text \<open>
  The loop over \<^verbatim>\<open>summarized\<close>, lines 156 to 179. \<open>str_net\<close> is \<^verbatim>\<open>str\<close> on a
  network.
\<close>

fun summarize_loop ::
  "(network \<Rightarrow> string) \<Rightarrow> (network \<times> entry) list \<Rightarrow> network list \<Rightarrow> table \<Rightarrow> py_error + table" where
  "summarize_loop str_net redes_obj [] nova_tabela = Inr nova_tabela"
| "summarize_loop str_net redes_obj (sum_net # rest) nova_tabela =
     (case redes_contidas redes_obj sum_net of
        Inl e \<Rightarrow> Inl e
      | Inr [] \<Rightarrow> summarize_loop str_net redes_obj rest nova_tabela
      | Inr (m # ms) \<Rightarrow>
          (let menor_custo = min_key (\<lambda>c. c) (cost (snd m)) (map (\<lambda>x. cost (snd x)) ms);
               melhor_rede = min_key (\<lambda>x. cost (snd x)) m ms
           in summarize_loop str_net redes_obj rest
                (AList.update (str_net sum_net)
                   \<lparr>cost = menor_custo, next_hop = next_hop (snd melhor_rede)\<rparr> nova_tabela)))"

definition summarize_table ::
  "(string \<Rightarrow> network option) \<Rightarrow> (network \<Rightarrow> string) \<Rightarrow> table \<Rightarrow> py_error + table" where
  "summarize_table ip_network str_net tbl =
     (let redes_obj = parse_table ip_network tbl [] in
      case collapse_addresses (map fst redes_obj) of
        Inl e \<Rightarrow> Inl e
      | Inr summarized \<Rightarrow> summarize_loop str_net redes_obj summarized [])"

subsection \<open>Sending the advertisements\<close>

text \<open>The poison reverse of \<^verbatim>\<open>send_updates_to_neighbors\<close>, lines 119 to 121.\<close>

definition poison_reverse :: "string \<Rightarrow> table \<Rightarrow> table" where
  "poison_reverse neighbor_address tabela_para_enviar =
     map (\<lambda>(destino, info).
            (destino, if next_hop info = neighbor_address then info\<lparr>cost := INFINITY\<rparr> else info))
         tabela_para_enviar"

text \<open>The payload \<^verbatim>\<open>{"sender_address": ..., "routing_table": ...}\<close> posted to a neighbour.\<close>

datatype payload = Payload (payload_sender: string) (payload_table: table)

text \<open>
  One round of the loop of \<^verbatim>\<open>send_updates_to_neighbors\<close>, lines 113 to 126: the
  payload built for \<open>neighbor_address\<close>.
\<close>

definition advertisement ::
  "(string \<Rightarrow> network option) \<Rightarrow> (network \<Rightarrow> string) \<Rightarrow> router \<Rightarrow> string \<Rightarrow> py_error + payload" where
  "advertisement ip_network str_net r neighbor_address =
     (case summarize_table ip_network str_net (routing_table r) of
        Inl e \<Rightarrow> Inl e
      | Inr tabela_para_enviar \<Rightarrow>
          Inr (Payload (my_address r) (poison_reverse neighbor_address tabela_para_enviar)))"

text \<open>
  \<^verbatim>\<open>send_updates_to_neighbors\<close>: the payloads posted, each with the neighbour it goes
  to, in the order of \<^verbatim>\<open>neighbors\<close>, and the exception that ends the loop, if any. A
  failed post is caught and printed by the source and does not end the loop.
\<close>

fun send_loop ::
  "(string \<Rightarrow> network option) \<Rightarrow> (network \<Rightarrow> string) \<Rightarrow> router \<Rightarrow> string list \<Rightarrow>
     (string \<times> payload) list \<times> py_error option" where
  "send_loop ip_network str_net r [] = ([], None)"
| "send_loop ip_network str_net r (neighbor_address # rest) =
     (case advertisement ip_network str_net r neighbor_address of
        Inl e \<Rightarrow> ([], Some e)
      | Inr p \<Rightarrow>
          (case send_loop ip_network str_net r rest of
             (sent, err) \<Rightarrow> ((neighbor_address, p) # sent, err)))"

definition send_updates_to_neighbors ::
  "(string \<Rightarrow> network option) \<Rightarrow> (network \<Rightarrow> string) \<Rightarrow> router \<Rightarrow>
     (string \<times> payload) list \<times> py_error option" where
  "send_updates_to_neighbors ip_network str_net r =
     send_loop ip_network str_net r (map fst (neighbors r))"

text \<open>
  The relaxation rule in the words of the specification (section 4.4, rules 3 to 5), for
  comparison with \<open>merge_route\<close>: the entry stored for a prefix after a candidate from
  \<open>sender\<close> has been considered, given the entry stored before (if any).
\<close>

definition spec_relax :: "string \<Rightarrow> int \<Rightarrow> entry option \<Rightarrow> entry" where
  "spec_relax sender candidate_cost current =
     (case current of
        None \<Rightarrow> \<lparr>cost = candidate_cost, next_hop = sender\<rparr>
      | Some e \<Rightarrow>
          if candidate_cost < cost e then \<lparr>cost = candidate_cost, next_hop = sender\<rparr>
          else if next_hop e = sender then e\<lparr>cost := candidate_cost\<rparr>
          else e)"


subsection \<open>An example configuration\<close>

text \<open>
  A router with two neighbours, one of them behind a link of cost 20, and an
  advertisement from the first neighbour.
\<close>

definition ex_router :: router where
  "ex_router = Router_init ''127.0.0.1:5000'' [(''127.0.0.1:5001'', 1), (''127.0.0.1:5002'', 20)]
     ''10.0.1.0/24'' 1"

definition ex_update :: json where
  "ex_update = JObj
     [(''sender_address'', JStr ''127.0.0.1:5001''),
      (''routing_table'', JObj
         [(''10.0.2.0/24'', JObj [(''cost'', JInt 0), (''next_hop'', JStr ''127.0.0.1:5001'')]),
          (''10.0.3.0/24'', JObj [(''cost'', JInt 4), (''next_hop'', JStr ''127.0.0.1:5003'')])])]"


text \<open>
  A router that has learnt the prefix 10.0.0.0/23 from its first neighbour and the
  prefix 10.0.0.0/24, which lies inside it, from its second neighbour.
\<close>

definition ex_router2 :: router where
  "ex_router2 =
     fst (receive_update
       (fst (receive_update
          (Router_init ''127.0.0.1:5000'' [(''127.0.0.1:5001'', 1), (''127.0.0.1:5002'', 1)]
             ''192.168.1.0/24'' 1)
          (JObj [(''sender_address'', JStr ''127.0.0.1:5001''),
                 (''routing_table'', JObj
                    [(''10.0.0.0/23'', JObj [(''cost'', JInt 4), (''next_hop'', JStr ''127.0.0.1:5009'')])])])))
       (JObj [(''sender_address'', JStr ''127.0.0.1:5002''),
              (''routing_table'', JObj
                 [(''10.0.0.0/24'', JObj [(''cost'', JInt 0), (''next_hop'', JStr ''127.0.0.1:5002'')])])]))"

text \<open>
  The notions the properties of the summarizer are stated with. A network object of
  the module has a prefix length within its version's range and an address within the
  address space whose host bits are zero (\<open>valid_network\<close>); it covers the addresses
  from its network address to its broadcast address (\<open>addresses\<close>); a covering
  prefix contains a prefix, equality included, when both have one version and the
  range of the second lies in the range of the first (\<open>contains_net\<close>); two
  networks are adjacent when one begins right after the other ends; and
  \<open>parsed_entries\<close> are the entries of a table whose keys parse, each with the
  network its key denotes, in the order of the table.
\<close>

definition valid_network :: "network \<Rightarrow> bool" where
  "valid_network n \<longleftrightarrow>
     prefixlen n \<le> max_prefixlen (version n) \<and>
     network_address n < 2 ^ max_prefixlen (version n) \<and>
     2 ^ (max_prefixlen (version n) - prefixlen n) dvd network_address n"

definition addresses :: "network \<Rightarrow> (ip_version \<times> nat) set" where
  "addresses n = {version n} \<times> {network_address n .. broadcast_address n}"

definition contains_net :: "network \<Rightarrow> network \<Rightarrow> bool" where
  "contains_net s n \<longleftrightarrow>
     version n = version s \<and> network_address s \<le> network_address n \<and>
     broadcast_address n \<le> broadcast_address s"

definition adjacent :: "network \<Rightarrow> network \<Rightarrow> bool" where
  "adjacent n m \<longleftrightarrow>
     version n = version m \<and>
     (broadcast_address n + 1 = network_address m \<or> broadcast_address m + 1 = network_address n)"

definition parsed_entries :: "(string \<Rightarrow> network option) \<Rightarrow> table \<Rightarrow> (network \<times> entry) list" where
  "parsed_entries ip_network tbl =
     List.map_filter (\<lambda>(k, info). map_option (\<lambda>n. (n, info)) (ip_network k)) tbl"

text \<open>
  A router whose administered network is written with host bits set, 10.0.1.1/24, after
  its neighbour has advertised the same network as 10.0.1.0/24.
\<close>

definition ex_router3 :: router where
  "ex_router3 =
     fst (receive_update
       (Router_init ''127.0.0.1:5000'' [(''127.0.0.1:5001'', 1)] ''10.0.1.1/24'' 1)
       (JObj [(''sender_address'', JStr ''127.0.0.1:5001''),
              (''routing_table'', JObj
                 [(''10.0.1.0/24'', JObj [(''cost'', JInt 1), (''next_hop'', JStr ''127.0.0.1:5001'')])])]))"

text \<open>
  The number of host bits of a network.
\<close>

definition hostbits :: "network \<Rightarrow> nat" where
  "hostbits n = max_prefixlen (version n) - prefixlen n"

text \<open>
  The addresses covered by a set of networks.
\<close>

definition cover :: "network set \<Rightarrow> (ip_version \<times> nat) set" where
  "cover S = (\<Union>n \<in> S. addresses n)"

text \<open>
  The invariant of the dictionary \<^verbatim>\<open>subnets\<close> in \<^verbatim>\<open>_collapse_addresses_internal\<close>: every
  stored network is well formed and stored under its supernet.
\<close>

definition subnets_inv :: "(network \<times> network) list \<Rightarrow> bool" where
  "subnets_inv sub \<longleftrightarrow>
     distinct (map fst sub) \<and> (\<forall>(k, v) \<in> set sub. supernet v = k \<and> valid_network v)"

text \<open>One round of the loop of \<open>summarize_address_range\<close>.\<close>

definition nbits_of :: "ip_version \<Rightarrow> nat \<Rightarrow> nat \<Rightarrow> nat" where
  "nbits_of v first_int last_int =
     min (count_righthand_zero_bits first_int (max_prefixlen v))
         (bit_length (last_int - first_int + 1) - 1)"

text \<open>
  A table with two prefixes that neither overlap nor touch, and a bootstrap key that is
  no prefix.
\<close>

definition ex_separated :: table where
  "ex_separated =
     [(''10.0.1.0/24'', \<lparr>cost = 0, next_hop = ''127.0.0.1:5000''\<rparr>),
      (''127.0.0.1:5001'', \<lparr>cost = 1, next_hop = ''127.0.0.1:5001''\<rparr>),
      (''10.0.3.0/24'', \<lparr>cost = 2, next_hop = ''127.0.0.1:5001''\<rparr>)]"

declare merge_route.simps [simp del]

section \<open>Properties\<close>

subsection \<open>Association lists as dictionaries\<close>

lemma update_fresh: "k \<notin> fst ` set al \<Longrightarrow> AList.update k v al = al @ [(k, v)]"
  by (induction al) auto

subsection \<open>The example configuration\<close>

lemma ex_router_table:
  "routing_table ex_router =
     [(''10.0.1.0/24'', \<lparr>cost = 0, next_hop = ''127.0.0.1:5000''\<rparr>),
      (''127.0.0.1:5001'', \<lparr>cost = 1, next_hop = ''127.0.0.1:5001''\<rparr>),
      (''127.0.0.1:5002'', \<lparr>cost = 20, next_hop = ''127.0.0.1:5002''\<rparr>)]"
  by (simp add: ex_router_def Router_init_def)

lemma ex_router_neighbors:
  "neighbors ex_router = [(''127.0.0.1:5001'', 1), (''127.0.0.1:5002'', 20)]"
  by (simp add: ex_router_def Router_init_def)

subsection \<open>Router construction\<close>

lemma bootstrap_fold:
  "distinct (map fst nbrs) \<Longrightarrow> fst ` set nbrs \<inter> fst ` set rt = {} \<Longrightarrow>
   foldl (\<lambda>rt (neighbor, c). AList.update neighbor \<lparr>cost = c, next_hop = neighbor\<rparr> rt) rt nbrs
     = rt @ map (\<lambda>(neighbor, c). (neighbor, \<lparr>cost = c, next_hop = neighbor\<rparr>)) nbrs"
proof (induction nbrs arbitrary: rt)
  case Nil
  then show ?case by simp
next
  case (Cons p nbrs)
  obtain n c where p: "p = (n, c)" by (cases p)
  from Cons.prems have fresh: "n \<notin> fst ` set rt" and d: "distinct (map fst nbrs)"
    and n: "n \<notin> fst ` set nbrs" and disj: "fst ` set nbrs \<inter> fst ` set rt = {}"
    by (auto simp: p)
  have "fst ` set nbrs \<inter> fst ` set (rt @ [(n, \<lparr>cost = c, next_hop = n\<rparr>)]) = {}"
    using n disj by auto
  from Cons.IH[OF d this] show ?case
    by (simp add: p update_fresh[OF fresh])
qed

text \<open>
  Claim C8. After construction the routing table holds the route to the administered
  network, with cost 0 and the router's own address as next hop, followed by one route
  per configured neighbour, keyed by the neighbour's address, with the configured link
  cost and the neighbour itself as next hop, and nothing else. The neighbours are the
  keys of a dictionary (pairwise distinct), and the administered network, a network
  prefix, is not the address of a neighbour.
\<close>

theorem Router_init_table:
  assumes "distinct (map fst nbrs)" and "network \<notin> fst ` set nbrs"
  shows "routing_table (Router_init address nbrs network interval) =
           (network, \<lparr>cost = 0, next_hop = address\<rparr>)
             # map (\<lambda>(neighbor, c). (neighbor, \<lparr>cost = c, next_hop = neighbor\<rparr>)) nbrs"
  using bootstrap_fold[OF assms(1), of "[(network, \<lparr>cost = 0, next_hop = address\<rparr>)]"] assms(2)
  by (simp add: Router_init_def)

theorem Router_init_table_witness:
  "distinct (map fst [(''127.0.0.1:5001'', 5::int), (''127.0.0.1:5002'', 10)]) \<and>
   ''10.0.1.0/24'' \<notin> fst ` set [(''127.0.0.1:5001'', 5::int), (''127.0.0.1:5002'', 10)] \<and>
   routing_table (Router_init ''127.0.0.1:5000''
       [(''127.0.0.1:5001'', 5), (''127.0.0.1:5002'', 10)] ''10.0.1.0/24'' 1) =
     [(''10.0.1.0/24'', \<lparr>cost = 0, next_hop = ''127.0.0.1:5000''\<rparr>),
      (''127.0.0.1:5001'', \<lparr>cost = 5, next_hop = ''127.0.0.1:5001''\<rparr>),
      (''127.0.0.1:5002'', \<lparr>cost = 10, next_hop = ''127.0.0.1:5002''\<rparr>)]"
  using Router_init_table[of "[(''127.0.0.1:5001'', 5), (''127.0.0.1:5002'', 10)]"
      "''10.0.1.0/24''" "''127.0.0.1:5000''" 1]
  by simp

subsection \<open>Receiving an advertisement\<close>

text \<open>
  Claim C6. An advertisement (a sender address and a table that is a mapping) whose
  sender is not a key of \<^verbatim>\<open>neighbors\<close> leaves the router, and with it the routing table,
  exactly as it was, and is answered with the status \<^verbatim>\<open>ignored\<close> and HTTP 200.
\<close>

theorem receive_update_unknown_sender:
  assumes "map_of kvs ''sender_address'' = Some (JStr sender)"
    and "sender \<noteq> []"
    and "map_of kvs ''routing_table'' = Some (JObj routes)"
    and "sender \<notin> fst ` set (neighbors r)"
  shows "receive_update r (JObj kvs) =
           (r, Inr (Response (JObj [(''status'', JStr ''ignored'')]) 200))"
proof -
  have "kvs \<noteq> []" using assms(1) by auto
  moreover have "map_of (neighbors r) sender = None"
    using assms(4) by (simp add: map_of_eq_None_iff)
  ultimately show ?thesis
    using assms(1-3) by (simp add: receive_update_def ignored_def)
qed

theorem receive_update_unknown_sender_witness:
  "receive_update ex_router
     (JObj [(''sender_address'', JStr ''127.0.0.1:5009''),
            (''routing_table'', JObj [(''10.0.9.0/24'', JObj [(''cost'', JInt 0)])])]) =
   (ex_router, Inr (Response (JObj [(''status'', JStr ''ignored'')]) 200))"
  using receive_update_unknown_sender[of
      "[(''sender_address'', JStr ''127.0.0.1:5009''),
        (''routing_table'', JObj [(''10.0.9.0/24'', JObj [(''cost'', JInt 0)])])]"
      "''127.0.0.1:5009''" "[(''10.0.9.0/24'', JObj [(''cost'', JInt 0)])]" ex_router]
  by (simp add: ex_router_neighbors)

lemma merge_route_typed:
  assumes "map_of kv ''cost'' = Some (JInt c)"
  shows "\<exists>rt' ch'. merge_route s l p (JObj kv) (rt, ch) = Inr (rt', ch') \<and>
           map_of rt' = (map_of rt)(p \<mapsto> spec_relax s (min (l + c) INFINITY) (map_of rt p))"
proof (cases "map_of rt p")
  case None
  then show ?thesis using assms
    by (auto simp: merge_route.simps spec_relax_def Let_def update_conv' min_def)
next
  case (Some e)
  then show ?thesis using assms
    by (auto simp: merge_route.simps spec_relax_def Let_def update_conv' min_def fun_eq_iff)
qed

lemma process_routes_typed:
  assumes "distinct (map fst routes)"
    and "\<forall>(p, info) \<in> set routes. \<exists>kv c. info = JObj kv \<and> map_of kv ''cost'' = Some (JInt c)"
  shows "\<exists>rt' ch'. process_routes s l routes (rt, ch) = ((rt', ch'), None) \<and>
           (\<forall>p kv c. (p, JObj kv) \<in> set routes \<longrightarrow> map_of kv ''cost'' = Some (JInt c) \<longrightarrow>
              map_of rt' p = Some (spec_relax s (min (l + c) INFINITY) (map_of rt p))) \<and>
           (\<forall>p. p \<notin> fst ` set routes \<longrightarrow> map_of rt' p = map_of rt p)"
  using assms
proof (induction routes arbitrary: rt ch)
  case Nil
  then show ?case by simp
next
  case (Cons x routes)
  obtain p info where x: "x = (p, info)" by (cases x)
  from Cons.prems(2) obtain kv c where info: "info = JObj kv" and c: "map_of kv ''cost'' = Some (JInt c)"
    by (auto simp: x)
  from merge_route_typed[OF c, of s l p rt ch] obtain rt1 ch1 where
    m: "merge_route s l p (JObj kv) (rt, ch) = Inr (rt1, ch1)"
    and m1: "map_of rt1 = (map_of rt)(p \<mapsto> spec_relax s (min (l + c) INFINITY) (map_of rt p))"
    by blast
  from Cons.prems have d: "distinct (map fst routes)" and pn: "p \<notin> fst ` set routes"
    and ty: "\<forall>(p, info) \<in> set routes. \<exists>kv c. info = JObj kv \<and> map_of kv ''cost'' = Some (JInt c)"
    by (auto simp: x)
  from Cons.IH[OF d ty, of rt1 ch1] obtain rt' ch' where
    r: "process_routes s l routes (rt1, ch1) = ((rt', ch'), None)"
    and r1: "\<forall>p kv c. (p, JObj kv) \<in> set routes \<longrightarrow> map_of kv ''cost'' = Some (JInt c) \<longrightarrow>
              map_of rt' p = Some (spec_relax s (min (l + c) INFINITY) (map_of rt1 p))"
    and r2: "\<forall>p. p \<notin> fst ` set routes \<longrightarrow> map_of rt' p = map_of rt1 p"
    by blast
  have "process_routes s l (x # routes) (rt, ch) = ((rt', ch'), None)"
    by (simp add: x info m r)
  moreover have "\<forall>q kv' c'. (q, JObj kv') \<in> set (x # routes) \<longrightarrow> map_of kv' ''cost'' = Some (JInt c') \<longrightarrow>
              map_of rt' q = Some (spec_relax s (min (l + c') INFINITY) (map_of rt q))"
  proof (intro allI impI)
    fix q kv' c'
    assume mem: "(q, JObj kv') \<in> set (x # routes)" and c': "map_of kv' ''cost'' = Some (JInt c')"
    show "map_of rt' q = Some (spec_relax s (min (l + c') INFINITY) (map_of rt q))"
    proof (cases "(q, JObj kv') = x")
      case True
      then have "q = p" "kv' = kv" using x info by auto
      then show ?thesis using r2 pn m1 c c' by simp
    next
      case False
      then have qm: "(q, JObj kv') \<in> set routes" using mem by simp
      then have "q \<noteq> p" using pn by force
      then show ?thesis using r1 qm c' m1 by simp
    qed
  qed
  moreover have "\<forall>q. q \<notin> fst ` set (x # routes) \<longrightarrow> map_of rt' q = map_of rt q"
    using r2 m1 by (auto simp: x)
  ultimately show ?case by blast
qed

text \<open>
  Claim C1. For an advertisement from a neighbour (the sender is a key of
  \<^verbatim>\<open>neighbors\<close>, with direct link cost \<open>direct_link_cost\<close>) whose entries carry
  integer costs, \<^verbatim>\<open>receive_update\<close> answers \<^verbatim>\<open>success\<close> and, for every entry
  \<open>(prefix, info)\<close> of it, leaves under \<open>prefix\<close> what the relaxation rule
  \<open>spec_relax\<close> gives for the candidate cost \<open>min (direct_link_cost + info.cost) 16\<close>:
  the candidate with the sender as next hop when the prefix was absent or the candidate
  is strictly cheaper, the old entry with its cost overwritten when its next hop is the
  sender, and the old entry otherwise. Prefixes the advertisement does not mention keep
  their entries.
\<close>

theorem receive_update_relaxes:
  assumes "map_of kvs ''sender_address'' = Some (JStr sender)"
    and "sender \<noteq> []"
    and "map_of kvs ''routing_table'' = Some (JObj routes)"
    and "map_of (neighbors r) sender = Some direct_link_cost"
    and "distinct (map fst routes)"
    and "\<forall>(prefix, info) \<in> set routes.
           \<exists>kv c. info = JObj kv \<and> map_of kv ''cost'' = Some (JInt c)"
  shows "\<exists>rt'. receive_update r (JObj kvs) = (r\<lparr>routing_table := rt'\<rparr>, Inr success) \<and>
           (\<forall>prefix kv c. (prefix, JObj kv) \<in> set routes \<longrightarrow>
              map_of kv ''cost'' = Some (JInt c) \<longrightarrow>
              map_of rt' prefix =
                Some (spec_relax sender (min (direct_link_cost + c) 16)
                        (map_of (routing_table r) prefix))) \<and>
           (\<forall>prefix. prefix \<notin> fst ` set routes \<longrightarrow>
              map_of rt' prefix = map_of (routing_table r) prefix)"
proof -
  have ne: "kvs \<noteq> []" using assms(1) by auto
  from process_routes_typed[OF assms(5,6), of sender direct_link_cost "routing_table r" False]
  obtain rt' ch' where
    p: "process_routes sender direct_link_cost routes (routing_table r, False) = ((rt', ch'), None)"
    and p1: "\<forall>p kv c. (p, JObj kv) \<in> set routes \<longrightarrow> map_of kv ''cost'' = Some (JInt c) \<longrightarrow>
              map_of rt' p = Some (spec_relax sender (min (direct_link_cost + c) INFINITY) (map_of (routing_table r) p))"
    and p2: "\<forall>p. p \<notin> fst ` set routes \<longrightarrow> map_of rt' p = map_of (routing_table r) p"
    by blast
  have "receive_update r (JObj kvs) = (r\<lparr>routing_table := rt'\<rparr>, Inr success)"
    using ne assms(1-4) p by (simp add: receive_update_def)
  then show ?thesis using p1 p2 unfolding INFINITY_def by blast
qed

theorem receive_update_relaxes_witness:
  "\<exists>rt'. receive_update ex_router ex_update = (ex_router\<lparr>routing_table := rt'\<rparr>, Inr success) \<and>
     map_of rt' ''10.0.2.0/24'' = Some \<lparr>cost = 1, next_hop = ''127.0.0.1:5001''\<rparr> \<and>
     map_of rt' ''10.0.3.0/24'' = Some \<lparr>cost = 5, next_hop = ''127.0.0.1:5001''\<rparr> \<and>
     map_of rt' ''10.0.1.0/24'' = Some \<lparr>cost = 0, next_hop = ''127.0.0.1:5000''\<rparr>"
proof -
  let ?routes = "[(''10.0.2.0/24'', JObj [(''cost'', JInt 0), (''next_hop'', JStr ''127.0.0.1:5001'')]),
          (''10.0.3.0/24'', JObj [(''cost'', JInt 4), (''next_hop'', JStr ''127.0.0.1:5003'')])]"
  let ?kvs = "[(''sender_address'', JStr ''127.0.0.1:5001''), (''routing_table'', JObj ?routes)]"
  have h1: "map_of ?kvs ''sender_address'' = Some (JStr ''127.0.0.1:5001'')" by simp
  have h2: "''127.0.0.1:5001'' \<noteq> []" by simp
  have h3: "map_of ?kvs ''routing_table'' = Some (JObj ?routes)" by simp
  have h4: "map_of (neighbors ex_router) ''127.0.0.1:5001'' = Some 1"
    by (simp add: ex_router_neighbors)
  have h5: "distinct (map fst ?routes)" by simp
  have h6: "\<forall>(prefix, info) \<in> set ?routes.
           \<exists>kv c. info = JObj kv \<and> map_of kv ''cost'' = Some (JInt c)" by simp
  from receive_update_relaxes[OF h1 h2 h3 h4 h5 h6] obtain rt' where
    r: "receive_update ex_router (JObj ?kvs) = (ex_router\<lparr>routing_table := rt'\<rparr>, Inr success)"
    and a: "\<forall>prefix kv c. (prefix, JObj kv) \<in> set ?routes \<longrightarrow>
              map_of kv ''cost'' = Some (JInt c) \<longrightarrow>
              map_of rt' prefix =
                Some (spec_relax ''127.0.0.1:5001'' (min (1 + c) 16)
                        (map_of (routing_table ex_router) prefix))"
    and b: "\<forall>prefix. prefix \<notin> fst ` set ?routes \<longrightarrow>
              map_of rt' prefix = map_of (routing_table ex_router) prefix"
    by blast
  from a[rule_format, of "''10.0.2.0/24''" _ 0]
  have "map_of rt' ''10.0.2.0/24'' = Some \<lparr>cost = 1, next_hop = ''127.0.0.1:5001''\<rparr>"
    by (simp add: ex_router_table spec_relax_def)
  moreover from a[rule_format, of "''10.0.3.0/24''" _ 4]
  have "map_of rt' ''10.0.3.0/24'' = Some \<lparr>cost = 5, next_hop = ''127.0.0.1:5001''\<rparr>"
    by (simp add: ex_router_table spec_relax_def)
  moreover from b[rule_format, of "''10.0.1.0/24''"]
  have "map_of rt' ''10.0.1.0/24'' = Some \<lparr>cost = 0, next_hop = ''127.0.0.1:5000''\<rparr>"
    by (simp add: ex_router_table)
  ultimately show ?thesis using r by (auto simp: ex_update_def)
qed

subsection \<open>Monotonicity and the bound on costs\<close>

lemma merge_route_cases:
  assumes "merge_route s l p info (rt, ch) = Inr (rt', ch')"
  shows "\<exists>c. c \<le> INFINITY \<and>
           ((map_of rt p = None \<and> map_of rt' = (map_of rt)(p \<mapsto> \<lparr>cost = c, next_hop = s\<rparr>)) \<or>
            (\<exists>e. map_of rt p = Some e \<and> c < cost e \<and>
                 map_of rt' = (map_of rt)(p \<mapsto> \<lparr>cost = c, next_hop = s\<rparr>)) \<or>
            (\<exists>e. map_of rt p = Some e \<and> \<not> c < cost e \<and> next_hop e = s \<and>
                 map_of rt' = (map_of rt)(p \<mapsto> e\<lparr>cost := c\<rparr>)) \<or>
            (\<exists>e. map_of rt p = Some e \<and> \<not> c < cost e \<and> next_hop e \<noteq> s \<and> rt' = rt))"
proof -
  from assms obtain x soma where x: "dict_get info ''cost'' (JInt INFINITY) = Inr x"
    and soma: "add_cost l x = Inr soma"
    by (auto simp: merge_route.simps split: sum.splits)
  define c where "c = (if soma > INFINITY then INFINITY else soma)"
  from assms have body: "(case map_of rt p of
                  None \<Rightarrow>
                    Inr (AList.update p \<lparr>cost = c, next_hop = s\<rparr> rt, True)
                | Some atual \<Rightarrow>
                    if c < cost atual then
                      Inr (AList.update p \<lparr>cost = c, next_hop = s\<rparr> rt, True)
                    else if next_hop atual = s then
                      Inr (AList.update p (atual\<lparr>cost := c\<rparr>) rt, True)
                    else Inr (rt, ch)) = Inr (rt', ch')"
    unfolding c_def by (cases "soma > INFINITY"; cases "map_of rt p") (auto simp: merge_route.simps x soma Let_def split: if_splits)
  have cb: "c \<le> INFINITY" by (simp add: c_def)
  show ?thesis
  proof (cases "map_of rt p")
    case None
    with body have "rt' = AList.update p \<lparr>cost = c, next_hop = s\<rparr> rt"
      by simp
    then show ?thesis using None cb by (intro exI[of _ c]) (simp add: update_conv')
  next
    case (Some e)
    show ?thesis
    proof (cases "c < cost e")
      case True
      with body Some have "rt' = AList.update p \<lparr>cost = c, next_hop = s\<rparr> rt"
        by simp
      then show ?thesis using Some True cb by (intro exI[of _ c]) (simp add: update_conv')
    next
      case False
      show ?thesis
      proof (cases "next_hop e = s")
        case True
        with body Some False have "rt' = AList.update p (e\<lparr>cost := c\<rparr>) rt"
          by simp
        then show ?thesis using Some False True cb by (intro exI[of _ c]) (simp add: update_conv')
      next
        case nh: False
        with body Some False have "rt' = rt"
          by simp
        then show ?thesis using Some False nh cb by (intro exI[of _ c]) simp
      qed
    qed
  qed
qed

lemma merge_route_monotone:
  assumes "merge_route s l p info (rt, ch) = Inr (rt', ch')"
    and "map_of rt k = Some e" and "next_hop e \<noteq> s"
  shows "\<exists>e'. map_of rt' k = Some e' \<and> cost e' \<le> cost e"
  using merge_route_cases[OF assms(1)] assms(2,3)
  by (cases "k = p") auto

lemma merge_route_bound:
  assumes "merge_route s l p info (rt, ch) = Inr (rt', ch')"
    and "\<forall>e \<in> ran (map_of rt). cost e \<le> INFINITY"
  shows "\<forall>e \<in> ran (map_of rt'). cost e \<le> INFINITY"
proof
  fix e' assume "e' \<in> ran (map_of rt')"
  then obtain k where k: "map_of rt' k = Some e'" by (auto simp: ran_def)
  have old: "\<And>k e. map_of rt k = Some e \<Longrightarrow> cost e \<le> INFINITY"
    using assms(2) by (auto simp: ran_def)
  from merge_route_cases[OF assms(1)] obtain c where c: "c \<le> INFINITY"
    and d: "(map_of rt p = None \<and> map_of rt' = (map_of rt)(p \<mapsto> \<lparr>cost = c, next_hop = s\<rparr>)) \<or>
            (\<exists>e. map_of rt p = Some e \<and> c < cost e \<and>
                 map_of rt' = (map_of rt)(p \<mapsto> \<lparr>cost = c, next_hop = s\<rparr>)) \<or>
            (\<exists>e. map_of rt p = Some e \<and> \<not> c < cost e \<and> next_hop e = s \<and>
                 map_of rt' = (map_of rt)(p \<mapsto> e\<lparr>cost := c\<rparr>)) \<or>
            (\<exists>e. map_of rt p = Some e \<and> \<not> c < cost e \<and> next_hop e \<noteq> s \<and> rt' = rt)"
    by blast
  show "cost e' \<le> INFINITY"
  proof (cases "k = p")
    case True
    from d k True have "cost e' = c \<or> map_of rt k = Some e'" by auto
    then show ?thesis using c old by auto
  next
    case False
    from d k False have "map_of rt k = Some e'" by auto
    then show ?thesis using old by auto
  qed
qed

lemma process_routes_bound:
  assumes "\<forall>e \<in> ran (map_of rt). cost e \<le> INFINITY"
  shows "\<forall>e \<in> ran (map_of (fst (fst (process_routes s l routes (rt, ch))))). cost e \<le> INFINITY"
  using assms
proof (induction routes arbitrary: rt ch)
  case Nil
  then show ?case by simp
next
  case (Cons x routes)
  obtain p info where x: "x = (p, info)" by (cases x)
  show ?case
  proof (cases "merge_route s l p info (rt, ch)")
    case (Inl err)
    then show ?thesis using Cons.prems by (simp add: x)
  next
    case (Inr st)
    obtain rt1 ch1 where st: "st = (rt1, ch1)" by (cases st)
    from merge_route_bound[OF Inr[unfolded st] Cons.prems]
    have "\<forall>e \<in> ran (map_of rt1). cost e \<le> INFINITY" .
    from Cons.IH[OF this, of ch1] show ?thesis by (simp add: x Inr st)
  qed
qed

lemma receive_update_table_cases:
  assumes "P (routing_table r)"
    and "\<And>s l routes. P (fst (fst (process_routes s l routes (routing_table r, False))))"
  shows "P (routing_table (fst (receive_update r q)))"
proof -
  have "\<And>s l routes st e. process_routes s l routes (routing_table r, False) = (st, e) \<Longrightarrow> P (fst st)"
    using assms(2) by (metis fst_conv)
  then show ?thesis
    unfolding receive_update_def using assms(1)
    by (auto split: sum.splits option.splits json.splits prod.splits)
qed

lemma receive_update_bound:
  assumes "\<forall>e \<in> ran (map_of (routing_table r)). cost e \<le> INFINITY"
  shows "\<forall>e \<in> ran (map_of (routing_table (fst (receive_update r q)))). cost e \<le> INFINITY"
  by (rule receive_update_table_cases) (use assms process_routes_bound[OF assms] in auto)

lemma receive_updates_bound:
  assumes "\<forall>e \<in> ran (map_of (routing_table r)). cost e \<le> INFINITY"
  shows "\<forall>e \<in> ran (map_of (routing_table (foldl (\<lambda>r q. fst (receive_update r q)) r qs))). cost e \<le> INFINITY"
  using assms
proof (induction qs arbitrary: r)
  case Nil
  then show ?case by simp
next
  case (Cons q qs)
  from Cons.IH[OF receive_update_bound[OF Cons.prems, of q]] show ?case by simp
qed

text \<open>
  Claim C9, as amended. In a merge step of \<^verbatim>\<open>receive_update\<close> the cost stored for a
  destination does not increase unless the advertisement comes from the destination's
  current next hop; every entry a merge step writes has a cost of at most 16; and if no
  cost stored before a sequence of advertisements exceeds 16 (the entries of the
  constructor keep the configured link costs, which are not clamped), none does
  afterwards.
\<close>

theorem merge_monotone_and_bounded:
  "(merge_route sender l prefix info (rt, ch) = Inr (rt', ch') \<longrightarrow>
      map_of rt k = Some e \<longrightarrow> next_hop e \<noteq> sender \<longrightarrow>
      (\<exists>e'. map_of rt' k = Some e' \<and> cost e' \<le> cost e)) \<and>
   (merge_route sender l prefix info (rt, ch) = Inr (rt', ch') \<longrightarrow>
      map_of rt' k = Some e2 \<longrightarrow> map_of rt k = Some e2 \<or> cost e2 \<le> 16) \<and>
   ((\<forall>e \<in> ran (map_of (routing_table r)). cost e \<le> 16) \<longrightarrow>
      (\<forall>e \<in> ran (map_of (routing_table (foldl (\<lambda>r q. fst (receive_update r q)) r qs))).
          cost e \<le> 16))"
proof (intro conjI impI)
  assume "merge_route sender l prefix info (rt, ch) = Inr (rt', ch')"
    and "map_of rt k = Some e" and "next_hop e \<noteq> sender"
  then show "\<exists>e'. map_of rt' k = Some e' \<and> cost e' \<le> cost e"
    by (rule merge_route_monotone)
next
  assume m: "merge_route sender l prefix info (rt, ch) = Inr (rt', ch')"
    and k: "map_of rt' k = Some e2"
  from merge_route_cases[OF m] k show "map_of rt k = Some e2 \<or> cost e2 \<le> 16"
    unfolding INFINITY_def by (cases "k = prefix") (auto split: if_splits)
next
  assume "\<forall>e \<in> ran (map_of (routing_table r)). cost e \<le> 16"
  then show "\<forall>e \<in> ran (map_of (routing_table (foldl (\<lambda>r q. fst (receive_update r q)) r qs))).
          cost e \<le> 16"
    using receive_updates_bound[of r qs] unfolding INFINITY_def by simp
qed

theorem merge_monotone_and_bounded_witness:
  "(\<exists>e'. map_of (routing_table ex_router) ''10.0.1.0/24'' = Some e' \<and> cost e' \<le> 0) \<and>
   (\<exists>rt. rt = routing_table (foldl (\<lambda>r q. fst (receive_update r q))
                 (ex_router\<lparr>routing_table := [(''10.0.1.0/24'', \<lparr>cost = 0, next_hop = ''127.0.0.1:5000''\<rparr>)]\<rparr>)
                 [ex_update, ex_update]) \<and>
      (\<forall>e \<in> ran (map_of rt). cost e \<le> 16))"
proof -
  let ?rt = "routing_table ex_router"
  let ?e = "\<lparr>cost = 0, next_hop = ''127.0.0.1:5000''\<rparr>"
  have m: "merge_route ''127.0.0.1:5001'' 1 ''10.0.1.0/24'' (JObj [(''cost'', JInt 3)]) (?rt, False)
            = Inr (?rt, False)"
    by (simp add: merge_route.simps ex_router_table INFINITY_def)
  have k: "map_of ?rt ''10.0.1.0/24'' = Some ?e" by (simp add: ex_router_table)
  have n: "next_hop ?e \<noteq> ''127.0.0.1:5001''" by simp
  let ?r0 = "ex_router\<lparr>routing_table := [(''10.0.1.0/24'', ?e)]\<rparr>"
  have b: "\<forall>e \<in> ran (map_of (routing_table ?r0)). cost e \<le> 16"
    by (auto simp: ran_def split: if_splits)
  note t = merge_monotone_and_bounded[of "''127.0.0.1:5001''" 1 "''10.0.1.0/24''"
      "JObj [(''cost'', JInt 3)]" ?rt False ?rt False "''10.0.1.0/24''" ?e ?e ?r0
      "[ex_update, ex_update]"]
  from t m k n have "\<exists>e'. map_of ?rt ''10.0.1.0/24'' = Some e' \<and> cost e' \<le> cost ?e" by blast
  moreover from t b have "\<forall>e \<in> ran (map_of (routing_table (foldl (\<lambda>r q. fst (receive_update r q)) ?r0
                 [ex_update, ex_update]))). cost e \<le> 16" by blast
  ultimately show ?thesis by simp
qed

lemma ex_update_result:
  "receive_update ex_router ex_update =
     (ex_router\<lparr>routing_table :=
        [(''10.0.1.0/24'', \<lparr>cost = 0, next_hop = ''127.0.0.1:5000''\<rparr>),
         (''127.0.0.1:5001'', \<lparr>cost = 1, next_hop = ''127.0.0.1:5001''\<rparr>),
         (''127.0.0.1:5002'', \<lparr>cost = 20, next_hop = ''127.0.0.1:5002''\<rparr>),
         (''10.0.2.0/24'', \<lparr>cost = 1, next_hop = ''127.0.0.1:5001''\<rparr>),
         (''10.0.3.0/24'', \<lparr>cost = 5, next_hop = ''127.0.0.1:5001''\<rparr>)]\<rparr>,
      Inr success)"
  by (simp add: receive_update_def ex_update_def ex_router_table ex_router_neighbors
      merge_route.simps INFINITY_def)

text \<open>
  Claim C9 as stated fails: with a configured link cost of 20 the constructor stores the
  cost 20 for that neighbour, and it is still stored after an advertisement has been
  merged.
\<close>

theorem stored_cost_above_infinity:
  "map_of (routing_table (fst (receive_update ex_router ex_update))) ''127.0.0.1:5002''
     = Some \<lparr>cost = 20, next_hop = ''127.0.0.1:5002''\<rparr> \<and> \<not> (20 :: int) \<le> INFINITY"
  by (simp add: ex_update_result INFINITY_def)

text \<open>
  Claim C7. A payload that is a JSON object without a (truthy) sender address or without
  a table that is a mapping is answered with HTTP 400 and leaves the router as it was
  (\<open>receive_update_malformed_object\<close> below). A payload that is not an object and not
  empty, such as the JSON array \<^verbatim>\<open>[1]\<close>, also lacks a sender address, but the handler
  calls \<^verbatim>\<open>.get\<close> on it and the \<^verbatim>\<open>AttributeError\<close> escapes: no 400 response is
  produced. The router is unchanged in both cases.
\<close>

theorem receive_update_malformed_list:
  "receive_update r (JList [JInt 1]) = (r, Inl AttributeError)"
  by (simp add: receive_update_def)

theorem receive_update_malformed_list_witness:
  "receive_update ex_router (JList [JInt 1]) = (ex_router, Inl AttributeError)"
  using receive_update_malformed_list[of ex_router] .

lemma receive_update_malformed_object:
  assumes "kvs = [] \<or> map_of kvs ''sender_address'' = None \<or>
           (\<exists>a. map_of kvs ''sender_address'' = Some a \<and> \<not> truthy a) \<or>
           map_of kvs ''routing_table'' = None \<or>
           (\<exists>t. map_of kvs ''routing_table'' = Some t \<and> \<not> is_dict t)"
  shows "\<exists>msg. receive_update r (JObj kvs) = (r, Inr (Response (JObj [(''error'', JStr msg)]) 400))"
  using assms by (auto simp: receive_update_def bad_request_def split: option.splits)

lemmas net_defs = netmask_def hostmask_def broadcast_address_def supernet_def ALL_ONES_def
  subnet_of_def

lemmas parse_defs = ip_network_v4_def ip_int_from_string_def parse_octet_def isdigit_def
  int_of_digits_def prefix_from_prefix_string_def

lemma foldl_update_other:
  "k \<notin> fst ` set nbrs \<Longrightarrow>
   map_of (foldl (\<lambda>rt (neighbor, c). AList.update neighbor \<lparr>cost = c, next_hop = neighbor\<rparr> rt) rt nbrs) k
     = map_of rt k"
  by (induction nbrs arbitrary: rt) (auto simp: update_conv')

text \<open>
  Claim C10, as amended. The constructor does not validate the administered network:
  for every string it builds the router, keeps the string as \<^verbatim>\<open>my_network\<close> and, unless
  a neighbour has the same key, stores under it the route of cost 0 through the router's
  own address.
\<close>

theorem Router_init_accepts_any_network:
  "my_network (Router_init address nbrs network interval) = network \<and>
   (network \<notin> fst ` set nbrs \<longrightarrow>
      map_of (routing_table (Router_init address nbrs network interval)) network
        = Some \<lparr>cost = 0, next_hop = address\<rparr>)"
  by (simp add: Router_init_def foldl_update_other)

theorem Router_init_accepts_any_network_witness:
  "my_network (Router_init ''127.0.0.1:5000'' [(''127.0.0.1:5001'', 1)] ''rede-invalida'' 1)
     = ''rede-invalida'' \<and>
   map_of (routing_table (Router_init ''127.0.0.1:5000'' [(''127.0.0.1:5001'', 1)] ''rede-invalida'' 1))
     ''rede-invalida'' = Some \<lparr>cost = 0, next_hop = ''127.0.0.1:5000''\<rparr>"
  using Router_init_accepts_any_network[of "''127.0.0.1:5000''" "[(''127.0.0.1:5001'', 1)]"
      "''rede-invalida''" 1]
  by simp

text \<open>
  Claim C10 as stated fails: the string \<^verbatim>\<open>rede-invalida\<close> is not a network and the
  constructor builds the router all the same, with the string as a key of its table.
\<close>

theorem malformed_network_accepted:
  "ip_network_v4 ''rede-invalida'' = None \<and>
   Router_init ''127.0.0.1:5000'' [(''127.0.0.1:5001'', 1)] ''rede-invalida'' 1 =
     \<lparr> my_address = ''127.0.0.1:5000'', neighbors = [(''127.0.0.1:5001'', 1)],
       my_network = ''rede-invalida'', update_interval = 1,
       routing_table =
         [(''rede-invalida'', \<lparr>cost = 0, next_hop = ''127.0.0.1:5000''\<rparr>),
          (''127.0.0.1:5001'', \<lparr>cost = 1, next_hop = ''127.0.0.1:5001''\<rparr>)] \<rparr>"
  by (simp add: parse_defs Router_init_def)

lemma ex_router2_eq:
  "ex_router2 =
     \<lparr> my_address = ''127.0.0.1:5000'',
       neighbors = [(''127.0.0.1:5001'', 1), (''127.0.0.1:5002'', 1)],
       my_network = ''192.168.1.0/24'', update_interval = 1,
       routing_table =
         [(''192.168.1.0/24'', \<lparr>cost = 0, next_hop = ''127.0.0.1:5000''\<rparr>),
          (''127.0.0.1:5001'', \<lparr>cost = 1, next_hop = ''127.0.0.1:5001''\<rparr>),
          (''127.0.0.1:5002'', \<lparr>cost = 1, next_hop = ''127.0.0.1:5002''\<rparr>),
          (''10.0.0.0/23'', \<lparr>cost = 5, next_hop = ''127.0.0.1:5001''\<rparr>),
          (''10.0.0.0/24'', \<lparr>cost = 1, next_hop = ''127.0.0.1:5002''\<rparr>)] \<rparr>"
  by (simp add: ex_router2_def Router_init_def receive_update_def merge_route.simps INFINITY_def)

lemma ex_router2_summary:
  "summarize_table ip_network_v4 str_network_v4 (routing_table ex_router2) =
     Inr [(''10.0.0.0/23'', \<lparr>cost = 1, next_hop = ''127.0.0.1:5002''\<rparr>),
          (''192.168.1.0/24'', \<lparr>cost = 0, next_hop = ''127.0.0.1:5000''\<rparr>)]"
  by (simp add: ex_router2_eq summarize_table_def parse_defs net_defs collapse_addresses_def
      collapse_addresses_internal_def sorted_networks_def str_network_v4_def str_nat.simps)

text \<open>
  Claim C2 as stated fails: the routing table reaches 10.0.0.0/23 through the first
  neighbour at cost 5, and the advertisement sent to that neighbour carries 10.0.0.0/23
  with the finite cost 1, because the summarizer gave the covering prefix the cost and
  next hop of the cheaper route to 10.0.0.0/24 inside it.
\<close>

theorem finite_cost_sent_to_next_hop:
  "map_of (routing_table ex_router2) ''10.0.0.0/23''
     = Some \<lparr>cost = 5, next_hop = ''127.0.0.1:5001''\<rparr> \<and>
   advertisement ip_network_v4 str_network_v4 ex_router2 ''127.0.0.1:5001'' =
     Inr (Payload ''127.0.0.1:5000''
           [(''10.0.0.0/23'', \<lparr>cost = 1, next_hop = ''127.0.0.1:5002''\<rparr>),
            (''192.168.1.0/24'', \<lparr>cost = 0, next_hop = ''127.0.0.1:5000''\<rparr>)])"
  by (simp add: advertisement_def ex_router2_summary poison_reverse_def) (simp add: ex_router2_eq)

lemma send_loop_ok:
  "summarize_table ip str (routing_table r) = Inr t \<Longrightarrow>
   send_loop ip str r ns = (map (\<lambda>N. (N, Payload (my_address r) (poison_reverse N t))) ns, None)"
  by (induction ns) (simp_all add: advertisement_def)

lemma send_loop_error:
  "summarize_table ip str (routing_table r) = Inl e \<Longrightarrow> fst (send_loop ip str r ns) = []"
  by (cases ns) (simp_all add: advertisement_def)

lemma poison_reverse_rel:
  "list_all2 (\<lambda>(d, info) (d', info'). d' = d \<and> next_hop info' = next_hop info \<and>
       cost info' = (if next_hop info = N then 16 else cost info))
     t (poison_reverse N t)"
  by (induction t) (auto simp: poison_reverse_def INFINITY_def)

lemma poison_reverse_infinite:
  "\<forall>(d, info) \<in> set (poison_reverse N t). next_hop info = N \<longrightarrow> cost info = 16"
  by (auto simp: poison_reverse_def INFINITY_def)

text \<open>
  Claim C2, as amended. In the advertisement sent to a neighbour \<open>N\<close> the table is
  the summarized table, entry by entry, with the same keys and next hops, where the
  cost of every entry whose next hop in the summarized table is \<open>N\<close> is 16 and the
  cost of every other entry is unchanged; so no entry sent to \<open>N\<close> with next hop
  \<open>N\<close> has a finite cost. When the summarization succeeds every neighbour is sent
  one advertisement. The next hop is the one the summarizer chose for the covering
  prefix, which need not be the next hop the routing table holds for that prefix.
\<close>

theorem poison_reverse_after_summary:
  "((N, p) \<in> set (fst (send_updates_to_neighbors ip str r)) \<longrightarrow>
      (\<exists>t. summarize_table ip str (routing_table r) = Inr t \<and>
           payload_sender p = my_address r \<and>
           list_all2 (\<lambda>(d, info) (d', info'). d' = d \<and> next_hop info' = next_hop info \<and>
                cost info' = (if next_hop info = N then 16 else cost info))
             t (payload_table p) \<and>
           (\<forall>(d, info) \<in> set (payload_table p). next_hop info = N \<longrightarrow> cost info = 16))) \<and>
   (summarize_table ip str (routing_table r) = Inr t' \<longrightarrow>
      map fst (fst (send_updates_to_neighbors ip str r)) = map fst (neighbors r) \<and>
      snd (send_updates_to_neighbors ip str r) = None)"
proof (intro conjI impI)
  assume mem: "(N, p) \<in> set (fst (send_updates_to_neighbors ip str r))"
  show "\<exists>t. summarize_table ip str (routing_table r) = Inr t \<and>
           payload_sender p = my_address r \<and>
           list_all2 (\<lambda>(d, info) (d', info'). d' = d \<and> next_hop info' = next_hop info \<and>
                cost info' = (if next_hop info = N then 16 else cost info))
             t (payload_table p) \<and>
           (\<forall>(d, info) \<in> set (payload_table p). next_hop info = N \<longrightarrow> cost info = 16)"
  proof (cases "summarize_table ip str (routing_table r)")
    case (Inl e)
    from send_loop_error[OF Inl] mem show ?thesis
      by (simp add: send_updates_to_neighbors_def)
  next
    case (Inr t)
    from mem have "p = Payload (my_address r) (poison_reverse N t)"
      by (auto simp: send_updates_to_neighbors_def send_loop_ok[OF Inr])
    then show ?thesis
      using Inr poison_reverse_rel[of N t] poison_reverse_infinite[of N t] by auto
  qed
next
  assume "summarize_table ip str (routing_table r) = Inr t'"
  then show "map fst (fst (send_updates_to_neighbors ip str r)) = map fst (neighbors r)"
    by (simp add: send_updates_to_neighbors_def send_loop_ok o_def)
next
  assume "summarize_table ip str (routing_table r) = Inr t'"
  then show "snd (send_updates_to_neighbors ip str r) = None"
    by (simp add: send_updates_to_neighbors_def send_loop_ok)
qed

lemma ex_router2_sent:
  "send_updates_to_neighbors ip_network_v4 str_network_v4 ex_router2 =
     ([(''127.0.0.1:5001'', Payload ''127.0.0.1:5000''
           [(''10.0.0.0/23'', \<lparr>cost = 1, next_hop = ''127.0.0.1:5002''\<rparr>),
            (''192.168.1.0/24'', \<lparr>cost = 0, next_hop = ''127.0.0.1:5000''\<rparr>)]),
       (''127.0.0.1:5002'', Payload ''127.0.0.1:5000''
           [(''10.0.0.0/23'', \<lparr>cost = 16, next_hop = ''127.0.0.1:5002''\<rparr>),
            (''192.168.1.0/24'', \<lparr>cost = 0, next_hop = ''127.0.0.1:5000''\<rparr>)])], None)"
  by (simp add: send_updates_to_neighbors_def send_loop_ok[OF ex_router2_summary]
      poison_reverse_def INFINITY_def) (simp add: ex_router2_eq INFINITY_def)

theorem poison_reverse_after_summary_witness:
  "(\<exists>t. summarize_table ip_network_v4 str_network_v4 (routing_table ex_router2) = Inr t \<and>
        list_all2 (\<lambda>(d, info) (d', info'). d' = d \<and> next_hop info' = next_hop info \<and>
                cost info' = (if next_hop info = ''127.0.0.1:5002'' then 16 else cost info))
          t [(''10.0.0.0/23'', \<lparr>cost = 16, next_hop = ''127.0.0.1:5002''\<rparr>),
             (''192.168.1.0/24'', \<lparr>cost = 0, next_hop = ''127.0.0.1:5000''\<rparr>)]) \<and>
   map fst (fst (send_updates_to_neighbors ip_network_v4 str_network_v4 ex_router2))
     = [''127.0.0.1:5001'', ''127.0.0.1:5002'']"
proof -
  let ?p = "Payload ''127.0.0.1:5000''
           [(''10.0.0.0/23'', \<lparr>cost = 16, next_hop = ''127.0.0.1:5002''\<rparr>),
            (''192.168.1.0/24'', \<lparr>cost = 0, next_hop = ''127.0.0.1:5000''\<rparr>)]"
  note t = poison_reverse_after_summary[of "''127.0.0.1:5002''" ?p ip_network_v4 str_network_v4
      ex_router2]
  have mem: "(''127.0.0.1:5002'', ?p)
      \<in> set (fst (send_updates_to_neighbors ip_network_v4 str_network_v4 ex_router2))"
    by (simp add: ex_router2_sent)
  from t mem ex_router2_summary show ?thesis
    by (auto simp: ex_router2_eq)
qed

lemma set_update_subset: "set (AList.update k v al) \<subseteq> insert (k, v) (set al)"
  by (induction al) auto

lemma min_key_first_aux:
  "\<forall>y \<in> set pre0. f best < f y \<Longrightarrow> \<forall>y \<in> set mid. f best \<le> f y \<Longrightarrow>
   \<exists>pre post. pre0 @ best # mid @ xs = pre @ min_key f best xs # post \<and>
     (\<forall>x \<in> set pre. f (min_key f best xs) < f x) \<and>
     (\<forall>x \<in> set post. f (min_key f best xs) \<le> f x)"
proof (induction xs arbitrary: best pre0 mid)
  case Nil
  then show ?case by (intro exI[of _ pre0] exI[of _ mid]) simp
next
  case (Cons x xs)
  show ?case
  proof (cases "f x < f best")
    case True
    have "\<forall>y \<in> set (pre0 @ best # mid). f x < f y"
      using True Cons.prems by fastforce
    from Cons.IH[of "pre0 @ best # mid" x "[]", OF this] True show ?thesis by simp
  next
    case False
    have "\<forall>y \<in> set (mid @ [x]). f best \<le> f y" using False Cons.prems(2) by auto
    from Cons.IH[of pre0 best "mid @ [x]", OF Cons.prems(1) this] False show ?thesis by simp
  qed
qed

lemma min_key_first:
  "\<exists>pre post. m # ms = pre @ min_key f m ms # post \<and>
     (\<forall>x \<in> set pre. f (min_key f m ms) < f x) \<and>
     (\<forall>x \<in> set post. f (min_key f m ms) \<le> f x)"
  using min_key_first_aux[of "[]" f m "[]" ms] by simp

lemma min_key_map: "min_key (\<lambda>c. c) (f m) (map f ms) = f (min_key f m ms)"
  by (induction ms arbitrary: m) auto

lemma min_key_Min: "f (min_key f m ms) = Min (f ` set (m # ms))"
proof -
  from min_key_first[of m ms f] obtain pre post where
    e: "m # ms = pre @ min_key f m ms # post"
    and a: "\<forall>x \<in> set pre. f (min_key f m ms) < f x"
    and b: "\<forall>x \<in> set post. f (min_key f m ms) \<le> f x" by blast
  have "set (m # ms) = set pre \<union> {min_key f m ms} \<union> set post"
    unfolding e by auto
  then have "\<forall>y \<in> set (m # ms). f (min_key f m ms) \<le> f y" "min_key f m ms \<in> set (m # ms)"
    using a b by (auto simp: less_imp_le)
  then show ?thesis
    by (intro Min_eqI[symmetric]) auto
qed

lemma redes_contidas_Inr:
  "redes_contidas robj s = Inr found \<Longrightarrow>
   found = filter (\<lambda>(n, info). contains_net s n) robj \<and> (\<forall>(n, info) \<in> set robj. version n = version s)"
proof (induction robj arbitrary: found)
  case Nil
  then show ?case by simp
next
  case (Cons x robj)
  obtain n info where x: "x = (n, info)" by (cases x)
  from Cons.prems obtain b found' where
    s: "subnet_of n s = Inr b" and r: "redes_contidas robj s = Inr found'"
    and f: "found = (if b then (n, info) # found' else found')"
    by (auto simp: x split: sum.splits)
  from s have v: "version n = version s" and b: "b = contains_net s n"
    by (auto simp: subnet_of_def contains_net_def split: if_splits)
  from Cons.IH[OF r] f v b show ?case by (simp add: x)
qed

lemma redes_contidas_same_version:
  "\<forall>(n, info) \<in> set robj. version n = version s \<Longrightarrow>
   redes_contidas robj s = Inr (filter (\<lambda>(n, info). contains_net s n) robj)"
proof (induction robj)
  case Nil
  then show ?case by simp
next
  case (Cons x robj)
  obtain n info where x: "x = (n, info)" by (cases x)
  from Cons.prems have v: "version n = version s"
    and r: "\<forall>(n, info) \<in> set robj. version n = version s" by (auto simp: x)
  show ?case
    by (simp add: x Cons.IH[OF r] subnet_of_def v contains_net_def)
qed

lemma parse_table_filter:
  "parse_table ip tbl acc = parse_table ip (filter (\<lambda>(k, e). ip k \<noteq> None) tbl) acc"
  by (induction tbl arbitrary: acc) (auto split: option.splits)

lemma parsed_entries_Cons:
  "parsed_entries ip ((k, info) # tbl) =
     (case ip k of None \<Rightarrow> parsed_entries ip tbl | Some n \<Rightarrow> (n, info) # parsed_entries ip tbl)"
  by (simp add: parsed_entries_def split: option.splits)

lemma parsed_entries_Nil: "parsed_entries ip [] = []"
  by (simp add: parsed_entries_def)

lemma parse_table_distinct_entries:
  "distinct (map fst (acc @ parsed_entries ip tbl)) \<Longrightarrow>
   parse_table ip tbl acc = acc @ parsed_entries ip tbl"
proof (induction tbl arbitrary: acc)
  case Nil
  then show ?case by (simp add: parsed_entries_Nil)
next
  case (Cons x tbl)
  obtain k info where x: "x = (k, info)" by (cases x)
  show ?case
  proof (cases "ip k")
    case None
    with Cons show ?thesis by (simp add: x parsed_entries_Cons)
  next
    case (Some n)
    from Cons.prems have fresh: "n \<notin> fst ` set acc"
      and d: "distinct (map fst ((acc @ [(n, info)]) @ parsed_entries ip tbl))"
      by (auto simp: x parsed_entries_Cons Some)
    from Cons.IH[OF d] show ?thesis
      by (simp add: x parsed_entries_Cons Some update_fresh[OF fresh])
  qed
qed

lemma summarize_loop_entries:
  "summarize_loop str robj nets nova = Inr out \<Longrightarrow> (k, e) \<in> set out \<Longrightarrow>
   (k, e) \<in> set nova \<or>
   (\<exists>s \<in> set nets. \<exists>m ms. k = str s \<and> redes_contidas robj s = Inr (m # ms) \<and>
      e = \<lparr>cost = min_key (\<lambda>c. c) (cost (snd m)) (map (\<lambda>x. cost (snd x)) ms),
           next_hop = next_hop (snd (min_key (\<lambda>x. cost (snd x)) m ms))\<rparr>)"
proof (induction nets arbitrary: nova)
  case Nil
  then show ?case by simp
next
  case (Cons s nets)
  from Cons.prems(1) obtain found where f: "redes_contidas robj s = Inr found"
    by (auto split: sum.splits)
  show ?case
  proof (cases found)
    case Nil
    with Cons.prems f have "summarize_loop str robj nets nova = Inr out" by simp
    from Cons.IH[OF this Cons.prems(2)] show ?thesis by auto
  next
    case fc: (Cons m ms)
    let ?e = "\<lparr>cost = min_key (\<lambda>c. c) (cost (snd m)) (map (\<lambda>x. cost (snd x)) ms),
           next_hop = next_hop (snd (min_key (\<lambda>x. cost (snd x)) m ms))\<rparr>"
    from Cons.prems(1) f fc
    have "summarize_loop str robj nets (AList.update (str s) ?e nova) = Inr out"
      by (simp add: Let_def)
    from Cons.IH[OF this Cons.prems(2)]
    show ?thesis
    proof
      assume "(k, e) \<in> set (AList.update (str s) ?e nova)"
      with set_update_subset[of "str s" ?e nova] have "(k, e) = (str s, ?e) \<or> (k, e) \<in> set nova"
        by auto
      then show ?thesis
      proof
        assume "(k, e) = (str s, ?e)"
        then have "k = str s \<and> redes_contidas robj s = Inr (m # ms) \<and> e = ?e"
          using f fc by simp
        then show ?thesis by (intro disjI2 bexI[of _ s] exI[of _ m] exI[of _ ms]) simp_all
      next
        assume "(k, e) \<in> set nova"
        then show ?thesis by simp
      qed
    next
      assume "\<exists>s \<in> set nets. \<exists>m ms. k = str s \<and> redes_contidas robj s = Inr (m # ms) \<and>
        e = \<lparr>cost = min_key (\<lambda>c. c) (cost (snd m)) (map (\<lambda>x. cost (snd x)) ms),
           next_hop = next_hop (snd (min_key (\<lambda>x. cost (snd x)) m ms))\<rparr>"
      then show ?thesis by auto
    qed
  qed
qed

text \<open>
  When the keys of the table denote pairwise distinct networks, every entry \<open>(k, e)\<close>
  of the summarized table is keyed by the string of a covering prefix \<open>sum_net\<close>;
  among the parsed entries of the input table whose prefix \<open>sum_net\<close> contains
  (equality included), taken in the order of the table, the cost of \<open>e\<close> is the
  minimum cost, and the next hop of \<open>e\<close> is the next hop of the first member with
  that cost: every member examined before it costs strictly more.
\<close>

lemma summarized_entry_cheapest_distinct:
  assumes "distinct (map fst (parsed_entries ip tbl))"
    and "summarize_table ip str tbl = Inr out"
    and "(k, e) \<in> set out"
  shows "\<exists>sum_net pre m post. k = str sum_net \<and>
           filter (\<lambda>(n, info). contains_net sum_net n) (parsed_entries ip tbl) = pre @ m # post \<and>
           cost e = Min ((\<lambda>(n, info). cost info) ` set (pre @ m # post)) \<and>
           cost (snd m) = cost e \<and> next_hop e = next_hop (snd m) \<and>
           (\<forall>x \<in> set pre. cost e < cost (snd x))"
proof -
  have robj: "parse_table ip tbl [] = parsed_entries ip tbl"
    using parse_table_distinct_entries[of "[]" ip tbl] assms(1) by simp
  from assms(2) obtain summarized where
    loop: "summarize_loop str (parsed_entries ip tbl) summarized [] = Inr out"
    by (auto simp: summarize_table_def robj Let_def split: sum.splits)
  from summarize_loop_entries[OF loop assms(3)] obtain s m0 ms where
    k: "k = str s" and rc: "redes_contidas (parsed_entries ip tbl) s = Inr (m0 # ms)"
    and e: "e = \<lparr>cost = min_key (\<lambda>c. c) (cost (snd m0)) (map (\<lambda>x. cost (snd x)) ms),
           next_hop = next_hop (snd (min_key (\<lambda>x. cost (snd x)) m0 ms))\<rparr>"
    by auto
  let ?f = "\<lambda>x. cost (snd x)"
  let ?m = "min_key ?f m0 ms"
  from redes_contidas_Inr[OF rc]
  have members: "filter (\<lambda>(n, info). contains_net s n) (parsed_entries ip tbl) = m0 # ms"
    by simp
  from min_key_first[of m0 ms ?f] obtain pre post where
    split: "m0 # ms = pre @ ?m # post"
    and first: "\<forall>x \<in> set pre. ?f ?m < ?f x" by blast
  have ce: "cost e = ?f ?m" by (simp add: e min_key_map[of ?f])
  have feq: "(\<lambda>(n, info). cost info) = ?f" by (auto simp: fun_eq_iff)
  have "?f ?m = Min (?f ` set (m0 # ms))" by (rule min_key_Min)
  then have mn: "cost e = Min ((\<lambda>(n, info). cost info) ` set (pre @ ?m # post))"
    unfolding feq ce split[symmetric] .
  show ?thesis
    using k members split mn ce first e
    by (intro exI[of _ s] exI[of _ pre] exI[of _ ?m] exI[of _ post]) simp
qed

lemma summarize_table_filter:
  "summarize_table ip str (filter (\<lambda>(k, e). ip k \<noteq> None) tbl) = summarize_table ip str tbl"
  unfolding summarize_table_def parse_table_filter[of ip tbl "[]"] ..

lemma summarize_table_keys:
  assumes "summarize_table ip str tbl = Inr out" and "k \<in> fst ` set out"
  shows "\<exists>s. k = str s"
proof -
  from assms(1) obtain summarized where
    loop: "summarize_loop str (parse_table ip tbl []) summarized [] = Inr out"
    by (auto simp: summarize_table_def Let_def split: sum.splits)
  from assms(2) obtain e where "(k, e) \<in> set out" by auto
  from summarize_loop_entries[OF loop this] show ?thesis by auto
qed

lemma poison_reverse_keys: "map fst (poison_reverse N t) = map fst t"
  by (simp add: poison_reverse_def split_beta)

text \<open>
  Claim C5. A key of the input table that does not parse as a network is not a key of
  the summarized table, the summarized table is the same as that of the input without
  the entries whose keys do not parse, and, when the input is the routing table of a
  router, the key appears in none of the advertisements the router sends. The parser
  accepts the strings that \<^verbatim>\<open>str\<close> gives for the networks of the result.
\<close>

theorem unparseable_keys_never_advertised:
  assumes "summarize_table ip str tbl = Inr out"
    and "\<forall>n. str n \<in> fst ` set out \<longrightarrow> ip (str n) \<noteq> None"
    and "ip key = None"
  shows "key \<notin> fst ` set out \<and>
         summarize_table ip str (filter (\<lambda>(k, e). ip k \<noteq> None) tbl) = Inr out \<and>
         (tbl = routing_table r \<longrightarrow>
            (\<forall>(N, p) \<in> set (fst (send_updates_to_neighbors ip str r)).
                key \<notin> fst ` set (payload_table p)))"
proof (intro conjI impI)
  show notin: "key \<notin> fst ` set out"
  proof
    assume "key \<in> fst ` set out"
    with summarize_table_keys[OF assms(1)] obtain s where "key = str s" by blast
    with \<open>key \<in> fst ` set out\<close> assms(2,3) show False by auto
  qed
  show "summarize_table ip str (filter (\<lambda>(k, e). ip k \<noteq> None) tbl) = Inr out"
    unfolding summarize_table_filter by (rule assms(1))
  assume t: "tbl = routing_table r"
  show "\<forall>(N, p) \<in> set (fst (send_updates_to_neighbors ip str r)). key \<notin> fst ` set (payload_table p)"
  proof (rule ballI)
    fix x
    assume x: "x \<in> set (fst (send_updates_to_neighbors ip str r))"
    obtain N p where xp: "x = (N, p)" by (cases x)
    from x have "p = Payload (my_address r) (poison_reverse N out)"
      using assms(1) by (auto simp: xp t send_updates_to_neighbors_def send_loop_ok)
    then have "fst ` set (payload_table p) = set (map fst (poison_reverse N out))" by simp
    then have "key \<notin> fst ` set (payload_table p)"
      using notin unfolding poison_reverse_keys by simp
    then show "case x of (N, p) \<Rightarrow> key \<notin> fst ` set (payload_table p)"
      by (simp add: xp)
  qed
qed

theorem unparseable_keys_never_advertised_witness:
  "ip_network_v4 ''127.0.0.1:5001'' = None \<and>
   map_of (routing_table ex_router2) ''127.0.0.1:5001''
     = Some \<lparr>cost = 1, next_hop = ''127.0.0.1:5001''\<rparr> \<and>
   ''127.0.0.1:5001'' \<notin> fst ` set
      [(''10.0.0.0/23'', \<lparr>cost = 1, next_hop = ''127.0.0.1:5002''\<rparr>),
       (''192.168.1.0/24'', \<lparr>cost = 0, next_hop = ''127.0.0.1:5000''\<rparr>)] \<and>
   summarize_table ip_network_v4 str_network_v4
      (filter (\<lambda>(k, e). ip_network_v4 k \<noteq> None) (routing_table ex_router2)) =
     Inr [(''10.0.0.0/23'', \<lparr>cost = 1, next_hop = ''127.0.0.1:5002''\<rparr>),
          (''192.168.1.0/24'', \<lparr>cost = 0, next_hop = ''127.0.0.1:5000''\<rparr>)]"
proof -
  let ?out = "[(''10.0.0.0/23'', \<lparr>cost = 1, next_hop = ''127.0.0.1:5002''\<rparr>),
       (''192.168.1.0/24'', \<lparr>cost = 0, next_hop = ''127.0.0.1:5000''\<rparr>)]"
  have h2: "\<forall>n. str_network_v4 n \<in> fst ` set ?out \<longrightarrow> ip_network_v4 (str_network_v4 n) \<noteq> None"
    by (auto simp: parse_defs)
  have h3: "ip_network_v4 ''127.0.0.1:5001'' = None" by (simp add: parse_defs)
  from unparseable_keys_never_advertised[OF ex_router2_summary h2 h3, of ex_router2] h3
  show ?thesis by (simp add: ex_router2_eq)
qed

lemma ex_router3_table:
  "routing_table ex_router3 =
     [(''10.0.1.1/24'', \<lparr>cost = 0, next_hop = ''127.0.0.1:5000''\<rparr>),
      (''127.0.0.1:5001'', \<lparr>cost = 1, next_hop = ''127.0.0.1:5001''\<rparr>),
      (''10.0.1.0/24'', \<lparr>cost = 2, next_hop = ''127.0.0.1:5001''\<rparr>)]"
  by (simp add: ex_router3_def Router_init_def receive_update_def merge_route.simps INFINITY_def)

lemma ex_router3_parsed:
  "parsed_entries ip_network_v4 (routing_table ex_router3) =
     [(Network IPv4 167772416 24, \<lparr>cost = 0, next_hop = ''127.0.0.1:5000''\<rparr>),
      (Network IPv4 167772416 24, \<lparr>cost = 2, next_hop = ''127.0.0.1:5001''\<rparr>)]"
  by (simp add: ex_router3_table parsed_entries_def parse_defs net_defs)

text \<open>
  Claim C4 fails on the code: the table of \<open>ex_router3\<close> holds the administered network
  under the key 10.0.1.1/24 at cost 0 and the same network under the key 10.0.1.0/24 at
  cost 2. Both keys parse to 10.0.1.0/24, the second assignment to \<^verbatim>\<open>redes_obj\<close>
  replaces the first, and the covering prefix 10.0.1.0/24 is advertised at cost 2 through
  the neighbour, although the minimum cost among the input entries it contains is 0.
\<close>

theorem summarized_cost_not_minimum:
  "summarize_table ip_network_v4 str_network_v4 (routing_table ex_router3) =
     Inr [(''10.0.1.0/24'', \<lparr>cost = 2, next_hop = ''127.0.0.1:5001''\<rparr>)] \<and>
   ip_network_v4 ''10.0.1.0/24'' = Some (Network IPv4 167772416 24) \<and>
   filter (\<lambda>(n, info). contains_net (Network IPv4 167772416 24) n)
       (parsed_entries ip_network_v4 (routing_table ex_router3)) =
     [(Network IPv4 167772416 24, \<lparr>cost = 0, next_hop = ''127.0.0.1:5000''\<rparr>),
      (Network IPv4 167772416 24, \<lparr>cost = 2, next_hop = ''127.0.0.1:5001''\<rparr>)] \<and>
   Min ((\<lambda>(n, info). cost info) `
        set (filter (\<lambda>(n, info). contains_net (Network IPv4 167772416 24) n)
               (parsed_entries ip_network_v4 (routing_table ex_router3)))) = 0"
proof -
  have s: "summarize_table ip_network_v4 str_network_v4 (routing_table ex_router3) =
     Inr [(''10.0.1.0/24'', \<lparr>cost = 2, next_hop = ''127.0.0.1:5001''\<rparr>)]"
    by (simp add: ex_router3_table summarize_table_def parse_defs net_defs collapse_addresses_def
      collapse_addresses_internal_def sorted_networks_def str_network_v4_def str_nat.simps)
  have p: "ip_network_v4 ''10.0.1.0/24'' = Some (Network IPv4 167772416 24)"
    by (simp add: parse_defs net_defs)
  have f: "filter (\<lambda>(n, info). contains_net (Network IPv4 167772416 24) n)
       (parsed_entries ip_network_v4 (routing_table ex_router3)) =
     [(Network IPv4 167772416 24, \<lparr>cost = 0, next_hop = ''127.0.0.1:5000''\<rparr>),
      (Network IPv4 167772416 24, \<lparr>cost = 2, next_hop = ''127.0.0.1:5001''\<rparr>)]"
    by (simp add: ex_router3_parsed contains_net_def)
  show ?thesis unfolding f by (simp add: s p)
qed

subsection \<open>Summarization soundness\<close>

text \<open>
  Netmask, broadcast address and supernet of a well-formed network, in arithmetic.
\<close>

lemma bit_lt: "a < 2 ^ m \<Longrightarrow> bit (a::nat) i \<Longrightarrow> i < m"
proof (rule ccontr)
  assume a: "a < 2 ^ m" and b: "bit a i" and "\<not> i < m"
  then have "(2::nat) ^ m \<le> 2 ^ i" by (simp add: power_increasing)
  with a have "a < 2 ^ i" by (rule less_le_trans)
  then have "a div 2 ^ i = 0" by simp
  with b show False by (simp add: bit_iff_odd)
qed

lemma ALL_ONES_mask: "ALL_ONES v = mask (max_prefixlen v)"
  by (simp add: ALL_ONES_def mask_eq_exp_minus_1)

lemma netmask_bits: "prefixlen n \<le> max_prefixlen (version n) \<Longrightarrow>
   bit (netmask n) i \<longleftrightarrow> hostbits n \<le> i \<and> i < max_prefixlen (version n)"
  by (auto simp: netmask_def ALL_ONES_mask hostbits_def bit_simps)

lemma hostmask_eq:
  "prefixlen n \<le> max_prefixlen (version n) \<Longrightarrow> hostmask n = 2 ^ hostbits n - 1"
  unfolding mask_eq_exp_minus_1[symmetric]
  by (rule bit_eqI) (auto simp: hostmask_def netmask_bits ALL_ONES_mask bit_simps hostbits_def)

lemma dvd_low_bits: "2 ^ h dvd (a::nat) \<Longrightarrow> i < h \<Longrightarrow> \<not> bit a i"
proof
  assume d: "2 ^ h dvd a" and i: "i < h" and b: "bit a i"
  from d have "take_bit h a = 0" by (simp add: take_bit_eq_0_iff)
  moreover from i b have "bit (take_bit h a) i" by (simp add: bit_take_bit_iff)
  ultimately show False by simp
qed

lemma broadcast_eq:
  assumes "valid_network n"
  shows "broadcast_address n = network_address n + (2 ^ hostbits n - 1)"
proof -
  have p: "prefixlen n \<le> max_prefixlen (version n)"
    and d: "2 ^ hostbits n dvd network_address n"
    using assms by (simp_all add: valid_network_def hostbits_def)
  have "network_address n + mask (hostbits n) = network_address n OR mask (hostbits n)"
    by (rule disjunctive_add) (use dvd_low_bits[OF d] in \<open>auto simp: bit_mask_iff\<close>)
  then show ?thesis
    by (simp add: broadcast_address_def hostmask_eq[OF p] mask_eq_exp_minus_1)
qed

lemma clear_low_bits: "(a::nat) - a mod 2 ^ k = push_bit k (drop_bit k a)"
  using bits_ident[of k a] by (simp add: take_bit_eq_mod)

lemma supernet_eq:
  assumes "valid_network n" "prefixlen n > 0"
  shows "supernet n = Network (version n)
           (network_address n - network_address n mod 2 ^ Suc (hostbits n)) (prefixlen n - 1)"
proof -
  have p: "prefixlen n \<le> max_prefixlen (version n)"
    and lt: "network_address n < 2 ^ max_prefixlen (version n)"
    using assms by (simp_all add: valid_network_def)
  have "network_address n AND push_bit 1 (netmask n)
          = push_bit (Suc (hostbits n)) (drop_bit (Suc (hostbits n)) (network_address n))"
  proof (rule bit_eqI)
    fix i
    have "bit (push_bit 1 (netmask n)) i \<longleftrightarrow>
            Suc (hostbits n) \<le> i \<and> i < Suc (max_prefixlen (version n))"
      unfolding bit_push_bit_iff netmask_bits[OF p] by auto
    moreover have "bit (push_bit (Suc (hostbits n)) (drop_bit (Suc (hostbits n)) (network_address n))) i
            \<longleftrightarrow> Suc (hostbits n) \<le> i \<and> bit (network_address n) i"
      unfolding bit_push_bit_iff bit_drop_bit_eq by auto
    ultimately show "bit (network_address n AND push_bit 1 (netmask n)) i \<longleftrightarrow>
        bit (push_bit (Suc (hostbits n)) (drop_bit (Suc (hostbits n)) (network_address n))) i"
      unfolding bit_and_iff using bit_lt[OF lt, of i] by auto
  qed
  then show ?thesis using assms(2) unfolding supernet_def clear_low_bits by simp
qed

lemma supernet_zero: "prefixlen n = 0 \<Longrightarrow> supernet n = n"
  by (simp add: supernet_def)

lemma version_supernet: "version (supernet n) = version n"
  by (simp add: supernet_def)

lemma mod_double_cases:
  assumes "2 ^ h dvd (a::nat)"
  shows "a mod 2 ^ Suc h = 0 \<or> a mod 2 ^ Suc h = 2 ^ h"
proof -
  from assms obtain k where k: "a = 2 ^ h * k" by (auto simp: dvd_def)
  have "2 ^ h * k mod (2 ^ h * 2) = 2 ^ h * (k mod 2)"
    by (rule mult_mod_right[symmetric])
  then have "a mod 2 ^ Suc h = 2 ^ h * (k mod 2)"
    unfolding k by (simp add: mult.commute)
  moreover have "k mod 2 = 0 \<or> k mod 2 = 1" by auto
  ultimately show ?thesis by auto
qed

lemma addresses_valid:
  "valid_network n \<Longrightarrow>
   addresses n = {version n} \<times> {network_address n ..< network_address n + 2 ^ hostbits n}"
proof -
  assume v: "valid_network n"
  define w :: nat where "w = 2 ^ hostbits n"
  have "0 < w" by (simp add: w_def)
  then have "{network_address n .. network_address n + (w - 1)}
      = {network_address n ..< network_address n + w}"
    by auto
  then show ?thesis by (simp add: addresses_def broadcast_eq[OF v] w_def)
qed

lemma hostbits_supernet:
  "valid_network n \<Longrightarrow> prefixlen n > 0 \<Longrightarrow> hostbits (supernet n) = Suc (hostbits n)"
  by (auto simp: supernet_eq hostbits_def valid_network_def)

lemma valid_supernet: "valid_network n \<Longrightarrow> valid_network (supernet n)"
proof (cases "prefixlen n = 0")
  case True
  assume "valid_network n"
  then show ?thesis by (simp add: supernet_zero[OF True])
next
  case False
  assume v: "valid_network n"
  from False have p: "prefixlen n > 0" by simp
  have h: "max_prefixlen (version n) - (prefixlen n - 1) = Suc (hostbits n)"
    using v p by (auto simp: hostbits_def valid_network_def)
  have "network_address n - network_address n mod 2 ^ Suc (hostbits n) \<le> network_address n"
    by simp
  then have "network_address n - network_address n mod 2 ^ Suc (hostbits n)
               < 2 ^ max_prefixlen (version n)"
    using v by (auto simp: valid_network_def intro: le_less_trans)
  moreover have "prefixlen n - 1 \<le> max_prefixlen (version n)"
    using v by (auto simp: valid_network_def)
  moreover have "2 ^ (max_prefixlen (version n) - (prefixlen n - 1)) dvd
      network_address n - network_address n mod 2 ^ Suc (hostbits n)"
    unfolding h by (rule dvd_minus_mod)
  ultimately show ?thesis
    unfolding supernet_eq[OF v p] valid_network_def network.sel by blast
qed

lemma addresses_supernet: "valid_network n \<Longrightarrow> addresses n \<subseteq> addresses (supernet n)"
proof (cases "prefixlen n = 0")
  case True
  then show ?thesis by (simp add: supernet_zero)
next
  case False
  assume v: "valid_network n"
  from False have p: "prefixlen n > 0" by simp
  have d: "2 ^ hostbits n dvd network_address n"
    using v by (simp add: valid_network_def hostbits_def)
  note vs = valid_supernet[OF v]
  have a: "network_address (supernet n)
             = network_address n - network_address n mod 2 ^ Suc (hostbits n)"
    by (simp add: supernet_eq[OF v p])
  define w :: nat where "w = 2 ^ hostbits n"
  define x where "x = network_address n"
  have w2: "2 ^ Suc (hostbits n) = 2 * w" by (simp add: w_def)
  have le: "x mod (2 * w) \<le> x" by (rule mod_less_eq_dividend)
  from mod_double_cases[OF d] have c: "x mod (2 * w) = 0 \<or> x mod (2 * w) = w"
    unfolding w2 x_def[symmetric] w_def[symmetric] .
  have "{x ..< x + w} \<subseteq> {x - x mod (2 * w) ..< x - x mod (2 * w) + 2 * w}"
    using c le by auto
  then show ?thesis
    unfolding addresses_valid[OF v] addresses_valid[OF vs] hostbits_supernet[OF v p]
      version_supernet a w2 x_def[symmetric] w_def[symmetric]
    by auto
qed

lemma network_eqI:
  "version a = version b \<Longrightarrow> network_address a = network_address b \<Longrightarrow>
   prefixlen a = prefixlen b \<Longrightarrow> a = b"
  by (cases a; cases b) simp

text \<open>
  Two different networks with one supernet fill it.
\<close>

lemma sibling_union:
  assumes vE: "valid_network E" and vN: "valid_network N"
    and ne: "E \<noteq> N" and s: "supernet E = supernet N"
  shows "addresses E \<union> addresses N = addresses (supernet N)"
proof -
  consider (N0) "prefixlen N = 0" | (E0) "prefixlen E = 0" "prefixlen N > 0"
    | (pos) "prefixlen E > 0" "prefixlen N > 0" by auto
  then show ?thesis
  proof cases
    case N0
    from addresses_supernet[OF vE] s show ?thesis
      by (auto simp: supernet_zero[OF N0])
  next
    case E0
    from addresses_supernet[OF vN] s show ?thesis
      by (auto simp: supernet_zero[OF E0(1)])
  next
    case pos
    note eE = supernet_eq[OF vE pos(1)] and eN = supernet_eq[OF vN pos(2)]
    from s have v: "version E = version N" and p: "prefixlen E = prefixlen N"
      and a: "network_address E - network_address E mod 2 ^ Suc (hostbits E)
              = network_address N - network_address N mod 2 ^ Suc (hostbits N)"
      using pos unfolding eE eN by auto
    have h: "hostbits E = hostbits N" by (simp add: hostbits_def v p)
    define w :: nat where "w = 2 ^ hostbits N"
    define x where "x = network_address E"
    define y where "y = network_address N"
    have w2: "2 ^ Suc (hostbits N) = 2 * w" by (simp add: w_def)
    have wpos: "0 < w" by (simp add: w_def)
    have dE: "2 ^ hostbits N dvd x" and dN: "2 ^ hostbits N dvd y"
      using vE vN h by (simp_all add: valid_network_def hostbits_def x_def y_def)
    have cx: "x mod (2 * w) = 0 \<or> x mod (2 * w) = w"
      using mod_double_cases[OF dE] unfolding w2 w_def[symmetric] .
    have cy: "y mod (2 * w) = 0 \<or> y mod (2 * w) = w"
      using mod_double_cases[OF dN] unfolding w2 w_def[symmetric] .
    have lx: "x mod (2 * w) \<le> x" and ly: "y mod (2 * w) \<le> y"
      by (rule mod_less_eq_dividend)+
    have eq: "x - x mod (2 * w) = y - y mod (2 * w)"
      using a unfolding h w2 x_def y_def .
    have xy: "x \<noteq> y"
      using ne network_eqI[OF v _ p] by (auto simp: x_def y_def)
    have nb0: "\<not> (x mod (2 * w) = 0 \<and> y mod (2 * w) = 0)"
    proof
      assume "x mod (2 * w) = 0 \<and> y mod (2 * w) = 0"
      with eq have "x = y" by simp
      with xy show False ..
    qed
    have nbw: "\<not> (x mod (2 * w) = w \<and> y mod (2 * w) = w)"
    proof
      assume b: "x mod (2 * w) = w \<and> y mod (2 * w) = w"
      with lx ly have "w \<le> x" "w \<le> y" by simp_all
      moreover from eq b have "x - w = y - w" by simp
      ultimately have "x = y" by arith
      with xy show False ..
    qed
    have xl4: "x mod (2 * w) = 0 \<Longrightarrow> y mod (2 * w) = w \<Longrightarrow> w \<le> y \<and> x = y - w"
      using ly eq by simp
    have yl4: "x mod (2 * w) = w \<Longrightarrow> y mod (2 * w) = 0 \<Longrightarrow> w \<le> x \<and> y = x - w"
      using lx eq by simp
    from cx cy nb0 nbw consider
        (xl) "x mod (2 * w) = 0" "y mod (2 * w) = w"
      | (yl) "x mod (2 * w) = w" "y mod (2 * w) = 0"
      by argo
    then have "{x ..< x + w} \<union> {y ..< y + w} = {y - y mod (2 * w) ..< y - y mod (2 * w) + 2 * w}"
    proof cases
      case xl
      from xl4[OF xl] have le: "w \<le> y" and x: "x = y - w" by simp_all
      have "{y - w ..< y - w + w} \<union> {y ..< y + w} = {y - w ..< y - w + 2 * w}"
        using le by auto
      then have "{x ..< x + w} \<union> {y ..< y + w} = {y - w ..< y - w + 2 * w}"
        by (simp only: x)
      then show ?thesis by (simp only: xl(2))
    next
      case yl
      from yl4[OF yl] have le: "w \<le> x" and y: "x - w = y" by simp_all
      have "{x ..< x + w} \<union> {x - w ..< x - w + w} = {x - w ..< x - w + 2 * w}"
        using le by auto
      then have "{x ..< x + w} \<union> {y ..< y + w} = {y ..< y + 2 * w}"
        by (simp only: y)
      then show ?thesis by (simp only: yl(2) diff_zero)
    qed
    then have u: "{x ..< x + w} \<union> {y ..< y + w}
        = {y - y mod (2 * w) ..< y - y mod (2 * w) + 2 * w}" .
    have aE: "addresses E = {version N} \<times> {x ..< x + w}"
      by (simp add: addresses_valid[OF vE] v h w_def x_def)
    have aN: "addresses N = {version N} \<times> {y ..< y + w}"
      by (simp add: addresses_valid[OF vN] w_def y_def)
    have nS: "network_address (supernet N) = y - y mod (2 * w)"
      unfolding eN network.sel w2 y_def ..
    have aS: "addresses (supernet N)
        = {version N} \<times> {y - y mod (2 * w) ..< y - y mod (2 * w) + 2 * w}"
      unfolding addresses_valid[OF valid_supernet[OF vN]] hostbits_supernet[OF vN pos(2)]
        version_supernet nS w2 ..
    show ?thesis unfolding aE aN aS u[symmetric] by auto
  qed
qed

lemma cover_insert: "cover (insert n S) = addresses n \<union> cover S"
  by (simp add: cover_def)

lemma cover_Un: "cover (A \<union> B) = cover A \<union> cover B"
  by (auto simp: cover_def)

lemma cover_empty: "cover {} = {}"
  by (simp add: cover_def)

lemma subnets_inv_Nil: "subnets_inv []"
  by (simp add: subnets_inv_def)

lemma step_store:
  assumes "subnets_inv sub" and "valid_network net" and "map_of sub (supernet net) = None"
  shows "subnets_inv (AList.update (supernet net) net sub)"
    and "snd ` set (AList.update (supernet net) net sub) = insert net (snd ` set sub)"
    and "length (AList.update (supernet net) net sub) = Suc (length sub)"
proof -
  from assms(3) have fresh: "supernet net \<notin> fst ` set sub"
    by (simp add: map_of_eq_None_iff)
  note u = update_fresh[OF fresh, of net]
  show "subnets_inv (AList.update (supernet net) net sub)"
    using assms(1,2) fresh unfolding u subnets_inv_def by auto
  show "snd ` set (AList.update (supernet net) net sub) = insert net (snd ` set sub)"
    unfolding u by auto
  show "length (AList.update (supernet net) net sub) = Suc (length sub)"
    unfolding u by simp
qed

lemma step_delete:
  assumes "subnets_inv sub" and "map_of sub k = Some ex"
  shows "subnets_inv (AList.delete k sub)"
    and "insert ex (snd ` set (AList.delete k sub)) = snd ` set sub"
    and "valid_network ex" and "supernet ex = k"
    and "Suc (length (AList.delete k sub)) \<le> length sub"
proof -
  from assms(2) have mem: "(k, ex) \<in> set sub" by (rule map_of_SomeD)
  from assms(1) have d: "distinct (map fst sub)" by (simp add: subnets_inv_def)
  have set_del: "set (AList.delete k sub) = {p \<in> set sub. fst p \<noteq> k}"
    by (auto simp: AList.delete_eq)
  have ent: "\<forall>(k, v) \<in> set sub. supernet v = k \<and> valid_network v"
    using assms(1) by (simp add: subnets_inv_def)
  show "subnets_inv (AList.delete k sub)"
    unfolding subnets_inv_def
  proof (intro conjI)
    show "distinct (map fst (AList.delete k sub))" using d by (rule distinct_delete)
    show "\<forall>(k, v) \<in> set (AList.delete k sub). supernet v = k \<and> valid_network v"
      using ent unfolding set_del by blast
  qed
  show "valid_network ex" "supernet ex = k"
    using ent mem by blast+
  have uniq: "v = ex" if "(k, v) \<in> set sub" for v
    using map_of_is_SomeI[OF d that] assms(2) by simp
  show "insert ex (snd ` set (AList.delete k sub)) = snd ` set sub"
  proof (intro equalityI subsetI)
    fix v assume "v \<in> insert ex (snd ` set (AList.delete k sub))"
    then show "v \<in> snd ` set sub"
      using mem unfolding set_del by force
  next
    fix v assume "v \<in> snd ` set sub"
    then obtain k' where kv: "(k', v) \<in> set sub" by auto
    show "v \<in> insert ex (snd ` set (AList.delete k sub))"
    proof (cases "k' = k")
      case True
      with kv uniq show ?thesis by simp
    next
      case False
      with kv have "(k', v) \<in> set (AList.delete k sub)" unfolding set_del by simp
      then show ?thesis by force
    qed
  qed
  have "length (AList.delete k sub) < length sub"
    unfolding AList.delete_eq using mem by (intro length_filter_less[of "(k, ex)"]) auto
  then show "Suc (length (AList.delete k sub)) \<le> length sub" by simp
qed

text \<open>
  The first loop of \<^verbatim>\<open>_collapse_addresses_internal\<close> keeps the covered addresses.
\<close>

lemma merge_subnets_props:
  assumes "subnets_inv sub" and "\<forall>n \<in> set tm. valid_network n"
  shows "subnets_inv (merge_subnets tm sub) \<and>
         cover (snd ` set (merge_subnets tm sub)) = cover (set tm) \<union> cover (snd ` set sub) \<and>
         length (merge_subnets tm sub) \<le> length tm + length sub \<and>
         (\<forall>v \<in> snd ` set (merge_subnets tm sub).
             \<exists>n \<in> set tm \<union> snd ` set sub. addresses n \<subseteq> addresses v) \<and>
         (\<forall>v \<in> snd ` set (merge_subnets tm sub).
             \<exists>n \<in> set tm \<union> snd ` set sub. version n = version v)"
  using assms
proof (induction tm sub rule: merge_subnets.induct)
  case (1 subnets)
  then show ?case by (auto simp: cover_empty)
next
  case (2 net to_merge subnets)
  let ?S = "supernet net"
  from "2.prems" have vnet: "valid_network net" and vrest: "\<forall>n \<in> set to_merge. valid_network n"
    by simp_all
  show ?case
  proof (cases "map_of subnets ?S")
    case None
    note st = step_store[OF "2.prems"(1) vnet None]
    let ?sub' = "AList.update ?S net subnets"
    let ?res = "merge_subnets to_merge ?sub'"
    from "2.IH"(1)[OF None st(1) vrest]
    have ih: "subnets_inv ?res"
      "cover (snd ` set ?res) = cover (set to_merge) \<union> cover (snd ` set ?sub')"
      "length ?res \<le> length to_merge + length ?sub'"
      "\<forall>v \<in> snd ` set ?res. \<exists>n \<in> set to_merge \<union> snd ` set ?sub'. addresses n \<subseteq> addresses v"
      "\<forall>v \<in> snd ` set ?res. \<exists>n \<in> set to_merge \<union> snd ` set ?sub'. version n = version v"
      by simp_all
    have r: "merge_subnets (net # to_merge) subnets = ?res"
      by (simp add: None)
    have e: "set to_merge \<union> snd ` set ?sub' = set (net # to_merge) \<union> snd ` set subnets"
      unfolding st(2) by auto
    have c1: "cover (snd ` set ?res) = cover (set (net # to_merge)) \<union> cover (snd ` set subnets)"
      unfolding ih(2) cover_Un[symmetric] e ..
    have c2: "length ?res \<le> length (net # to_merge) + length subnets"
      using ih(3) unfolding st(3) by simp
    show ?thesis unfolding r using ih(1) c1 c2 ih(4,5)[unfolded e] by (intro conjI)
  next
    case (Some ex)
    note sd = step_delete[OF "2.prems"(1) Some]
    show ?thesis
    proof (cases "ex = net")
      case True
      have "ex \<in> snd ` set subnets" unfolding sd(2)[symmetric] by simp
      then have mem: "net \<in> snd ` set subnets" using True by simp
      then have sub: "addresses net \<subseteq> cover (snd ` set subnets)"
        unfolding cover_def by blast
      let ?res = "merge_subnets to_merge subnets"
      have nn: "\<not> ex \<noteq> net" using True by simp
      from "2.IH"(3)[OF Some nn "2.prems"(1) vrest]
      have ih: "subnets_inv ?res"
        "cover (snd ` set ?res) = cover (set to_merge) \<union> cover (snd ` set subnets)"
        "length ?res \<le> length to_merge + length subnets"
        "\<forall>v \<in> snd ` set ?res. \<exists>n \<in> set to_merge \<union> snd ` set subnets. addresses n \<subseteq> addresses v"
        "\<forall>v \<in> snd ` set ?res. \<exists>n \<in> set to_merge \<union> snd ` set subnets. version n = version v"
        by simp_all
      have r: "merge_subnets (net # to_merge) subnets = ?res"
        by (simp add: Some True)
      have c1: "cover (snd ` set ?res) = cover (set (net # to_merge)) \<union> cover (snd ` set subnets)"
        unfolding ih(2) using sub by (auto simp: cover_insert)
      have c2: "length ?res \<le> length (net # to_merge) + length subnets"
        using ih(3) by simp
      have c3: "\<forall>v \<in> snd ` set ?res. \<exists>n \<in> set (net # to_merge) \<union> snd ` set subnets.
                  addresses n \<subseteq> addresses v"
        using ih(4) by (meson UnCI UnE list.set_intros(2))
      have c4: "\<forall>v \<in> snd ` set ?res. \<exists>n \<in> set (net # to_merge) \<union> snd ` set subnets.
                  version n = version v"
        using ih(5) by (meson UnCI UnE list.set_intros(2))
      show ?thesis unfolding r using ih(1) c1 c2 c3 c4 by (intro conjI)
    next
      case False
      have vS: "\<forall>n \<in> set (?S # to_merge). valid_network n"
        using vrest valid_supernet[OF vnet] by simp
      let ?sub' = "AList.delete ?S subnets"
      let ?res = "merge_subnets (?S # to_merge) ?sub'"
      from "2.IH"(2)[OF Some False sd(1) vS]
      have ih: "subnets_inv ?res"
        "cover (snd ` set ?res) = cover (set (?S # to_merge)) \<union> cover (snd ` set ?sub')"
        "length ?res \<le> length (?S # to_merge) + length ?sub'"
        "\<forall>v \<in> snd ` set ?res. \<exists>n \<in> set (?S # to_merge) \<union> snd ` set ?sub'. addresses n \<subseteq> addresses v"
        "\<forall>v \<in> snd ` set ?res. \<exists>n \<in> set (?S # to_merge) \<union> snd ` set ?sub'. version n = version v"
        by simp_all
      have r: "merge_subnets (net # to_merge) subnets = ?res"
        using False by (simp add: Some)
      have sib: "addresses ex \<union> addresses net = addresses ?S"
        using sibling_union[OF sd(3) vnet False] sd(4) by simp
      have cov: "cover (snd ` set subnets) = addresses ex \<union> cover (snd ` set ?sub')"
        unfolding sd(2)[symmetric] cover_insert ..
      have c1: "cover (snd ` set ?res) = cover (set (net # to_merge)) \<union> cover (snd ` set subnets)"
        unfolding ih(2) cov using sib by (auto simp: cover_insert)
      have c2: "length ?res \<le> length (net # to_merge) + length subnets"
        using ih(3) sd(5) by simp
      have sub': "snd ` set ?sub' \<subseteq> snd ` set subnets" using sd(2) by auto
      have c3: "\<forall>v \<in> snd ` set ?res. \<exists>n \<in> set (net # to_merge) \<union> snd ` set subnets.
                  addresses n \<subseteq> addresses v"
      proof
        fix v assume "v \<in> snd ` set ?res"
        with ih(4) obtain n where n: "n \<in> set (?S # to_merge) \<union> snd ` set ?sub'"
          and s: "addresses n \<subseteq> addresses v" by blast
        show "\<exists>n \<in> set (net # to_merge) \<union> snd ` set subnets. addresses n \<subseteq> addresses v"
        proof (cases "n = ?S")
          case True
          with s addresses_supernet[OF vnet] have "addresses net \<subseteq> addresses v" by auto
          then show ?thesis by auto
        next
          case False
          with n sub' have "n \<in> set (net # to_merge) \<union> snd ` set subnets" by auto
          with s show ?thesis by blast
        qed
      qed
      have c4: "\<forall>v \<in> snd ` set ?res. \<exists>n \<in> set (net # to_merge) \<union> snd ` set subnets.
                  version n = version v"
      proof
        fix v assume "v \<in> snd ` set ?res"
        with ih(5) obtain n where n: "n \<in> set (?S # to_merge) \<union> snd ` set ?sub'"
          and s: "version n = version v" by blast
        show "\<exists>n \<in> set (net # to_merge) \<union> snd ` set subnets. version n = version v"
        proof (cases "n = ?S")
          case True
          with s have "version net = version v" by (simp add: version_supernet)
          then show ?thesis by auto
        next
          case False
          with n sub' have "n \<in> set (net # to_merge) \<union> snd ` set subnets" by auto
          with s show ?thesis by blast
        qed
      qed
      show ?thesis unfolding r using ih(1) c1 c2 c3 c4 by (intro conjI)
    qed
  qed
qed

lemma skip_subsumed_props:
  assumes "sorted (map network_address xs)"
    and "\<forall>x \<in> set xs. network_address l \<le> network_address x \<and> version x = version l"
  shows "set (skip_subsumed (Some l) xs) \<subseteq> set xs \<and>
         addresses l \<union> cover (set (skip_subsumed (Some l) xs)) = addresses l \<union> cover (set xs) \<and>
         length (skip_subsumed (Some l) xs) \<le> length xs"
  using assms
proof (induction xs arbitrary: l)
  case Nil
  then show ?case by simp
next
  case (Cons net nets)
  from Cons.prems have srt: "sorted (map network_address nets)"
    and le: "network_address l \<le> network_address net" and v: "version net = version l"
    and rest: "\<forall>x \<in> set nets. network_address l \<le> network_address x \<and> version x = version l"
    and rest': "\<forall>x \<in> set nets. network_address net \<le> network_address x \<and> version x = version net"
    by auto
  show ?case
  proof (cases "broadcast_address l \<ge> broadcast_address net")
    case True
    have sub: "addresses net \<subseteq> addresses l"
      using True le v by (auto simp: addresses_def)
    from Cons.IH[OF srt rest] True sub show ?thesis
      by (auto simp: cover_insert)
  next
    case False
    from Cons.IH[OF srt rest'] False show ?thesis
      by (auto simp: cover_insert)
  qed
qed

lemma skip_subsumed_None:
  assumes "sorted (map network_address xs)"
    and "\<forall>x \<in> set xs. \<forall>y \<in> set xs. version x = version y"
  shows "set (skip_subsumed None xs) \<subseteq> set xs \<and>
         cover (set (skip_subsumed None xs)) = cover (set xs) \<and>
         length (skip_subsumed None xs) \<le> length xs"
proof (cases xs)
  case Nil
  then show ?thesis by simp
next
  case (Cons net nets)
  from assms(1) have srt: "sorted (map network_address nets)"
    and le: "\<forall>x \<in> set nets. network_address net \<le> network_address x"
    unfolding Cons by simp_all
  have ver: "\<forall>x \<in> set nets. version x = version net"
    using assms(2) unfolding Cons by (meson list.set_intros)
  have rest: "\<forall>x \<in> set nets. network_address net \<le> network_address x \<and> version x = version net"
    using le ver by blast
  from skip_subsumed_props[OF srt rest]
  have p: "set (skip_subsumed (Some net) nets) \<subseteq> set nets"
    "addresses net \<union> cover (set (skip_subsumed (Some net) nets)) = addresses net \<union> cover (set nets)"
    "length (skip_subsumed (Some net) nets) \<le> length nets"
    by simp_all
  have r: "skip_subsumed None xs = net # skip_subsumed (Some net) nets"
    unfolding Cons by simp
  show ?thesis
    unfolding r unfolding Cons using p by (simp add: cover_insert subset_insertI2)
qed

lemma sorted_fst:
  "sorted (map f xs) \<Longrightarrow> sorted (map (\<lambda>x. fst (f x)) xs)" for f :: "'a \<Rightarrow> nat \<times> nat"
  by (induction xs) (auto simp: less_eq_prod_def)

lemma sorted_by_address:
  "sorted (map network_address (sort_key (\<lambda>n. (network_address n, netmask n)) xs))"
  using sorted_fst[OF sorted_sort_key[of "\<lambda>n. (network_address n, netmask n)" xs]]
  by simp

text \<open>
  \<^verbatim>\<open>_collapse_addresses_internal\<close> on well-formed networks of one version returns networks
  that cover the same addresses, is no longer than its input, and every network it returns
  contains one of the input.
\<close>

lemma collapse_addresses_internal_props:
  assumes "\<forall>n \<in> set xs. valid_network n \<and> version n = v"
  shows "\<exists>R. collapse_addresses_internal xs = Inr R \<and>
           cover (set R) = cover (set xs) \<and> length R \<le> length xs \<and>
           (\<forall>s \<in> set R. valid_network s \<and> version s = v \<and>
                (\<exists>n \<in> set xs. addresses n \<subseteq> addresses s))"
proof -
  let ?M = "merge_subnets (rev xs) []"
  let ?V = "map snd ?M"
  have val: "\<forall>n \<in> set (rev xs). valid_network n" using assms by simp
  from merge_subnets_props[OF subnets_inv_Nil val]
  have inv: "subnets_inv ?M"
    and cov: "cover (snd ` set ?M) = cover (set xs)"
    and len: "length ?M \<le> length xs"
    and con: "\<forall>s \<in> snd ` set ?M. \<exists>n \<in> set xs. addresses n \<subseteq> addresses s"
    and ver: "\<forall>s \<in> snd ` set ?M. \<exists>n \<in> set xs. version n = version s"
    by (simp_all add: cover_empty)
  have vval: "\<forall>s \<in> set ?V. valid_network s"
    using inv unfolding subnets_inv_def by force
  have vver: "\<forall>s \<in> set ?V. version s = v"
    using ver assms by force
  let ?S = "sort_key (\<lambda>n. (network_address n, netmask n)) ?V"
  have srt: "sorted_networks ?V = Inr ?S"
    using vver by (auto simp: sorted_networks_def)
  have sv: "\<forall>x \<in> set ?S. \<forall>y \<in> set ?S. version x = version y"
    using vver by simp
  from skip_subsumed_None[OF sorted_by_address sv]
  have sk: "set (skip_subsumed None ?S) \<subseteq> set ?V"
    "cover (set (skip_subsumed None ?S)) = cover (set ?V)"
    "length (skip_subsumed None ?S) \<le> length ?V"
    by simp_all
  have r: "collapse_addresses_internal xs = Inr (skip_subsumed None ?S)"
    by (simp add: collapse_addresses_internal_def srt)
  have "\<forall>s \<in> set (skip_subsumed None ?S). valid_network s \<and> version s = v \<and>
                (\<exists>n \<in> set xs. addresses n \<subseteq> addresses s)"
    using sk(1) vval vver con by auto
  then show ?thesis
    using r sk(2,3) cov len by (intro exI[of _ "skip_subsumed None ?S"]) simp
qed

lemma bit_length_pos: "0 < n \<Longrightarrow> 0 < bit_length n"
  by (subst bit_length.simps) simp

lemma bit_length_lower: "0 < n \<Longrightarrow> 2 ^ (bit_length n - 1) \<le> n"
proof (induction n rule: bit_length.induct)
  case (1 n)
  show ?case
  proof (cases "n div 2 = 0")
    case True
    have "bit_length (n div 2) = 0" unfolding True by (subst bit_length.simps) simp
    then have "bit_length n = 1" using "1.prems" by (subst bit_length.simps) simp
    then show ?thesis using "1.prems" by simp
  next
    case False
    then have pos: "0 < n div 2" by simp
    from "1.IH"[OF _ pos] "1.prems" have ih: "2 ^ (bit_length (n div 2) - 1) \<le> n div 2" by simp
    have bl: "bit_length n = Suc (bit_length (n div 2))"
      using "1.prems" by (subst bit_length.simps) simp
    from bit_length_pos[OF pos] obtain k where k: "bit_length (n div 2) = Suc k"
      by (cases "bit_length (n div 2)") auto
    have "2 ^ (bit_length n - 1) = 2 * 2 ^ (bit_length (n div 2) - 1)"
      by (simp add: bl k)
    also have "\<dots> \<le> 2 * (n div 2)" using ih by simp
    also have "\<dots> \<le> n" by simp
    finally show ?thesis .
  qed
qed

lemma righthand_zero_bits_dvd: "2 ^ righthand_zero_bits n dvd n"
proof (induction n rule: righthand_zero_bits.induct)
  case (1 n)
  show ?case
  proof (cases "n = 0 \<or> odd n")
    case True
    then have "righthand_zero_bits n = 0" by (subst righthand_zero_bits.simps) simp
    then show ?thesis by simp
  next
    case False
    then have r: "righthand_zero_bits n = Suc (righthand_zero_bits (n div 2))"
      by (subst righthand_zero_bits.simps) simp
    from False have ev: "even n" by simp
    from "1.IH"[OF False] have "2 * 2 ^ righthand_zero_bits (n div 2) dvd 2 * (n div 2)"
      by (rule mult_dvd_mono[OF dvd_refl])
    then show ?thesis using ev by (simp add: r)
  qed
qed

lemma count_righthand_zero_bits_props:
  "2 ^ count_righthand_zero_bits number bits dvd number"
  "count_righthand_zero_bits number bits \<le> bits"
proof -
  have "2 ^ min bits (righthand_zero_bits number) dvd (2::nat) ^ righthand_zero_bits number"
    by (rule le_imp_power_dvd) simp
  then have "2 ^ min bits (righthand_zero_bits number) dvd number"
    using righthand_zero_bits_dvd[of number] by (rule dvd_trans)
  then show "2 ^ count_righthand_zero_bits number bits dvd number"
    by (simp add: count_righthand_zero_bits_def)
  show "count_righthand_zero_bits number bits \<le> bits"
    by (simp add: count_righthand_zero_bits_def)
qed

lemma nbits_props:
  assumes "first_int \<le> last_int"
  shows "2 ^ nbits_of v first_int last_int dvd first_int"
    and "nbits_of v first_int last_int \<le> max_prefixlen v"
    and "first_int + 2 ^ nbits_of v first_int last_int \<le> last_int + 1"
proof -
  let ?c = "count_righthand_zero_bits first_int (max_prefixlen v)"
  let ?b = "bit_length (last_int - first_int + 1) - 1"
  have "2 ^ nbits_of v first_int last_int dvd (2::nat) ^ ?c"
    unfolding nbits_of_def by (rule le_imp_power_dvd) simp
  then show "2 ^ nbits_of v first_int last_int dvd first_int"
    using count_righthand_zero_bits_props(1) by (rule dvd_trans)
  show "nbits_of v first_int last_int \<le> max_prefixlen v"
    unfolding nbits_of_def using count_righthand_zero_bits_props(2)[of first_int "max_prefixlen v"]
    by simp
  have "(2::nat) ^ nbits_of v first_int last_int \<le> 2 ^ ?b"
    unfolding nbits_of_def by (rule power_increasing) simp_all
  also have "\<dots> \<le> last_int - first_int + 1" by (rule bit_length_lower) simp
  finally show "first_int + 2 ^ nbits_of v first_int last_int \<le> last_int + 1"
    using assms by simp
qed

lemma summarize_address_range_unfold:
  "summarize_address_range v first_int last_int =
     (if first_int \<le> last_int then
        (if first_int + 2 ^ nbits_of v first_int last_int - 1 = ALL_ONES v
         then [Network v first_int (max_prefixlen v - nbits_of v first_int last_int)]
         else Network v first_int (max_prefixlen v - nbits_of v first_int last_int)
                # summarize_address_range v (first_int + 2 ^ nbits_of v first_int last_int) last_int)
      else [])"
  by (subst summarize_address_range.simps) (simp add: Let_def nbits_of_def)

text \<open>
  \<^verbatim>\<open>summarize_address_range\<close> covers exactly the range it is given.
\<close>

lemma summarize_address_range_props:
  assumes "last_int < 2 ^ max_prefixlen v" and "first_int \<le> last_int + 1"
  shows "cover (set (summarize_address_range v first_int last_int))
           = {v} \<times> {first_int ..< last_int + 1} \<and>
         length (summarize_address_range v first_int last_int) \<le> last_int + 1 - first_int \<and>
         (\<forall>s \<in> set (summarize_address_range v first_int last_int).
            valid_network s \<and> version s = v \<and>
            first_int \<le> network_address s \<and> network_address s \<le> last_int)"
  using assms
proof (induction v first_int last_int rule: summarize_address_range.induct)
  case (1 v first_int last_int)
  show ?case
  proof (cases "first_int \<le> last_int")
    case False
    with "1.prems" have "first_int = last_int + 1" by simp
    then show ?thesis
      by (subst (1 2 3) summarize_address_range_unfold) (simp add: cover_empty)
  next
    case True
    let ?nb = "nbits_of v first_int last_int"
    let ?net = "Network v first_int (max_prefixlen v - ?nb)"
    let ?next = "first_int + 2 ^ ?nb"
    note nb = nbits_props[OF True, of v]
    have pos: "(0::nat) < 2 ^ ?nb" by simp
    have vnet: "valid_network ?net"
      using nb(1,2) True "1.prems"(1) by (simp add: valid_network_def)
    have hb: "hostbits ?net = ?nb" using nb(2) by (simp add: hostbits_def)
    have anet: "addresses ?net = {v} \<times> {first_int ..< ?next}"
      by (simp add: addresses_valid[OF vnet] hb)
    show ?thesis
    proof (cases "?next - 1 = ALL_ONES v")
      case brk: True
      have r: "summarize_address_range v first_int last_int = [?net]"
        using True brk by (subst summarize_address_range_unfold) simp
      have "0 < ?next" "(0::nat) < 2 ^ max_prefixlen v" by simp_all
      moreover have "?next - 1 = 2 ^ max_prefixlen v - 1"
        using brk by (simp add: ALL_ONES_def)
      ultimately have "?next = 2 ^ max_prefixlen v" by linarith
      with nb(3) "1.prems"(1) have e: "?next = last_int + 1" by simp
      show ?thesis unfolding r using anet vnet True pos by (simp add: cover_insert cover_empty e)
    next
      case cont: False
      have r: "summarize_address_range v first_int last_int
                 = ?net # summarize_address_range v ?next last_int"
        using True cont by (subst summarize_address_range_unfold) simp
      from "1.IH"[OF True refl refl refl refl cont[unfolded nbits_of_def] "1.prems"(1)
          nb(3)[unfolded nbits_of_def]]
      have ih: "cover (set (summarize_address_range v ?next last_int))
                  = {v} \<times> {?next ..< last_int + 1}"
        "length (summarize_address_range v ?next last_int) \<le> last_int + 1 - ?next"
        "\<forall>s \<in> set (summarize_address_range v ?next last_int).
            valid_network s \<and> version s = v \<and> ?next \<le> network_address s \<and>
            network_address s \<le> last_int"
        unfolding nbits_of_def by simp_all
      have c1: "cover (set (?net # summarize_address_range v ?next last_int))
                  = {v} \<times> {first_int ..< last_int + 1}"
        using nb(3) by (auto simp: cover_insert anet ih(1))
      have c2: "length (?net # summarize_address_range v ?next last_int) \<le> last_int + 1 - first_int"
      proof -
        have "length (?net # summarize_address_range v ?next last_int)
                = Suc (length (summarize_address_range v ?next last_int))" by simp
        with ih(2) nb(3) pos show ?thesis by linarith
      qed
      have c3: "\<forall>s \<in> set (?net # summarize_address_range v ?next last_int).
            valid_network s \<and> version s = v \<and> first_int \<le> network_address s \<and>
            network_address s \<le> last_int"
        using ih(3) vnet True by auto
      show ?thesis unfolding r using c1 c2 c3 by (intro conjI)
    qed
  qed
qed

lemma find_address_range_loop_props:
  assumes "f \<le> l"
  shows "(\<forall>(a, b) \<in> set (find_address_range_loop f l it).
            a \<le> b \<and> b \<in> insert l (set it)) \<and>
         (\<Union>(a, b) \<in> set (find_address_range_loop f l it). {a ..< b + 1})
            = {f ..< l + 1} \<union> set it \<and>
         (\<Sum>(a, b) \<leftarrow> find_address_range_loop f l it. b + 1 - a) = (l + 1 - f) + length it"
  using assms
proof (induction it arbitrary: f l)
  case Nil
  then show ?case by simp
next
  case (Cons ip it)
  show ?case
  proof (cases "ip = l + 1")
    case True
    have le: "f \<le> ip" using Cons.prems True by simp
    have r: "find_address_range_loop f l (ip # it) = find_address_range_loop f ip it"
      using True by simp
    have s: "{f ..< ip + 1} = {f ..< l + 1} \<union> {ip}" using True Cons.prems by auto
    from Cons.IH[OF le] show ?thesis
      unfolding r s using True Cons.prems by auto
  next
    case False
    have r: "find_address_range_loop f l (ip # it) = (f, l) # find_address_range_loop ip ip it"
      using False by simp
    have s: "{ip ..< ip + 1} = {ip}" by auto
    from Cons.IH[of ip ip] show ?thesis
      unfolding r using Cons.prems by (auto simp: s)
  qed
qed

lemma find_address_range_props:
  "(\<forall>(a, b) \<in> set (find_address_range xs). a \<le> b \<and> b \<in> set xs) \<and>
   (\<Union>(a, b) \<in> set (find_address_range xs). {a ..< b + 1}) = set xs \<and>
   (\<Sum>(a, b) \<leftarrow> find_address_range xs. b + 1 - a) = length xs"
proof (cases xs)
  case Nil
  then show ?thesis by simp
next
  case (Cons ip it)
  have s: "{ip ..< ip + 1} = {ip}" by auto
  from find_address_range_loop_props[of ip ip it] show ?thesis
    unfolding Cons by (simp add: s)
qed

lemma split_addresses_same_version:
  assumes "\<forall>n \<in> set xs. version n = v"
    and "\<forall>i \<in> set ips. fst i = v" and "\<forall>n \<in> set nets. version n = v"
  shows "split_addresses xs ips nets =
           Inr (ips @ map (\<lambda>n. (v, network_address n))
                        (filter (\<lambda>n. prefixlen n = max_prefixlen v) xs),
                nets @ filter (\<lambda>n. prefixlen n \<noteq> max_prefixlen v) xs)"
  using assms
proof (induction xs arbitrary: ips nets)
  case Nil
  then show ?case by simp
next
  case (Cons ip rest)
  from Cons.prems have v: "version ip = v" and r: "\<forall>n \<in> set rest. version n = v" by simp_all
  show ?case
  proof (cases "prefixlen ip = max_prefixlen v")
    case True
    have ok: "\<not> (ips \<noteq> [] \<and> fst (last ips) \<noteq> version ip)"
      by (metis Cons.prems(2) v last_in_set)
    have i: "\<forall>i \<in> set (ips @ [(version ip, network_address ip)]). fst i = v"
      using Cons.prems(2) v by auto
    from Cons.IH[OF r i Cons.prems(3)] True ok show ?thesis by (simp add: v)
  next
    case False
    have ok: "\<not> (nets \<noteq> [] \<and> version (last nets) \<noteq> version ip)"
      by (metis Cons.prems(3) v last_in_set)
    have n: "\<forall>n \<in> set (nets @ [ip]). version n = v"
      using Cons.prems(3) v by auto
    from Cons.IH[OF r Cons.prems(2) n] False ok show ?thesis by (simp add: v)
  qed
qed

lemma cover_concat: "cover (set (concat (map f rs))) = (\<Union>r \<in> set rs. cover (set (f r)))"
  by (auto simp: cover_def)

lemma addresses_full:
  assumes "valid_network n" and "prefixlen n = max_prefixlen (version n)"
  shows "addresses n = {(version n, network_address n)}"
  using assms(2) by (auto simp: addresses_valid[OF assms(1)] hostbits_def)

lemma own_address: "valid_network s \<Longrightarrow> (version s, network_address s) \<in> addresses s"
  by (simp add: addresses_valid)

lemma summarized_ranges_props:
  assumes full: "\<forall>n \<in> set full. valid_network n \<and> version n = v \<and> prefixlen n = max_prefixlen v"
  defines "A \<equiv> sort (remdups (map network_address full))"
  defines "addrs \<equiv> concat (map (\<lambda>(first_ip, last_ip). summarize_address_range v first_ip last_ip)
                               (find_address_range A))"
  shows "cover (set addrs) = cover (set full)"
    and "length addrs \<le> length full"
    and "\<forall>s \<in> set addrs. valid_network s \<and> version s = v \<and>
            (\<exists>n \<in> set full. addresses n \<subseteq> addresses s)"
proof -
  have setA: "set A = network_address ` set full" by (simp add: A_def)
  have lenA: "length A \<le> length full"
    using length_remdups_leq[of "map network_address full"] by (simp add: A_def)
  note fr = find_address_range_props[of A]
  have rng: "a \<le> b \<and> b < 2 ^ max_prefixlen v" if "(a, b) \<in> set (find_address_range A)" for a b
  proof -
    from fr that have ab: "a \<le> b" and "b \<in> set A" by auto
    then obtain n where "n \<in> set full" "b = network_address n" unfolding setA by auto
    with full have "b < 2 ^ max_prefixlen v" by (auto simp: valid_network_def)
    with ab show ?thesis by simp
  qed
  have W: "cover (set (summarize_address_range v a b)) = {v} \<times> {a ..< b + 1} \<and>
         length (summarize_address_range v a b) \<le> b + 1 - a \<and>
         (\<forall>s \<in> set (summarize_address_range v a b).
            valid_network s \<and> version s = v \<and> a \<le> network_address s \<and> network_address s \<le> b)"
    if "(a, b) \<in> set (find_address_range A)" for a b
    using rng[OF that] by (intro summarize_address_range_props) simp_all
  have "cover (set addrs) = (\<Union>(a, b) \<in> set (find_address_range A). {v} \<times> {a ..< b + 1})"
    unfolding addrs_def cover_concat using W by auto
  also have "\<dots> = {v} \<times> (\<Union>(a, b) \<in> set (find_address_range A). {a ..< b + 1})"
    by auto
  also have "\<dots> = {v} \<times> set A" using fr by simp
  also have "\<dots> = cover (set full)"
    unfolding cover_def setA using full addresses_full by fastforce
  finally show "cover (set addrs) = cover (set full)" .
  have "length addrs = (\<Sum>(a, b) \<leftarrow> find_address_range A. length (summarize_address_range v a b))"
    unfolding addrs_def length_concat by (simp add: comp_def case_prod_unfold)
  also have "\<dots> \<le> (\<Sum>(a, b) \<leftarrow> find_address_range A. b + 1 - a)"
    by (rule sum_list_mono) (use W in auto)
  also have "\<dots> = length A" using fr by simp
  finally show "length addrs \<le> length full" using lenA by simp
  show "\<forall>s \<in> set addrs. valid_network s \<and> version s = v \<and>
            (\<exists>n \<in> set full. addresses n \<subseteq> addresses s)"
  proof
    fix s assume "s \<in> set addrs"
    then obtain a b where ab: "(a, b) \<in> set (find_address_range A)"
      and s: "s \<in> set (summarize_address_range v a b)"
      unfolding addrs_def by auto
    from W[OF ab] s have vs: "valid_network s" and ver: "version s = v"
      and lo: "a \<le> network_address s" and hi: "network_address s \<le> b" by auto
    from lo hi have "network_address s \<in> {a ..< b + 1}" by simp
    with ab fr have "network_address s \<in> set A" by blast
    then obtain n where n: "n \<in> set full" and e: "network_address n = network_address s"
      unfolding setA by auto
    from full n have "addresses n = {(version n, network_address n)}" "version n = v"
      using addresses_full by auto
    with own_address[OF vs] ver e have "addresses n \<subseteq> addresses s" by simp
    with n vs ver show "valid_network s \<and> version s = v \<and>
            (\<exists>n \<in> set full. addresses n \<subseteq> addresses s)" by blast
  qed
qed

text \<open>
  \<^verbatim>\<open>collapse_addresses\<close> on well-formed networks of one version.
\<close>

lemma collapse_addresses_props:
  assumes ok: "\<forall>n \<in> set xs. valid_network n \<and> version n = v"
  shows "\<exists>R. collapse_addresses xs = Inr R \<and> cover (set R) = cover (set xs) \<and>
           length R \<le> length xs \<and>
           (\<forall>s \<in> set R. valid_network s \<and> version s = v \<and>
              (\<exists>n \<in> set xs. addresses n \<subseteq> addresses s))"
proof -
  define full where "full = filter (\<lambda>n. prefixlen n = max_prefixlen v) xs"
  define part where "part = filter (\<lambda>n. prefixlen n \<noteq> max_prefixlen v) xs"
  define ips where "ips = map (\<lambda>n. (v, network_address n)) full"
  define A where "A = sort (remdups (map network_address full))"
  define addrs where "addrs = concat (map (\<lambda>(first_ip, last_ip).
      summarize_address_range v first_ip last_ip) (find_address_range A))"
  have sp: "split_addresses xs [] [] = Inr (ips, part)"
    using split_addresses_same_version[of xs v "[]" "[]"] ok
    by (simp add: ips_def full_def part_def)
  have snd_ips: "map snd ips = map network_address full"
    by (simp add: ips_def comp_def)
  have addrs_eq: "(case ips of [] \<Rightarrow> []
              | (v', a) # others \<Rightarrow>
                  concat (map (\<lambda>(first_ip, last_ip). summarize_address_range v' first_ip last_ip)
                            (find_address_range (sort (remdups (map snd ips)))))) = addrs"
  proof (cases full)
    case Nil
    then show ?thesis by (simp add: ips_def addrs_def A_def)
  next
    case (Cons n ns)
    then have "ips = (v, network_address n) # map (\<lambda>n. (v, network_address n)) ns"
      by (simp add: ips_def)
    then show ?thesis using snd_ips by (simp add: addrs_def A_def)
  qed
  have ca: "collapse_addresses xs = collapse_addresses_internal (addrs @ part)"
    unfolding collapse_addresses_def sp by (simp add: addrs_eq)
  have fullok: "\<forall>n \<in> set full. valid_network n \<and> version n = v \<and> prefixlen n = max_prefixlen v"
    using ok by (auto simp: full_def)
  note sr = summarized_ranges_props[OF fullok, folded A_def, folded addrs_def]
  have partok: "\<forall>n \<in> set part. valid_network n \<and> version n = v"
    using ok by (auto simp: part_def)
  have allok: "\<forall>n \<in> set (addrs @ part). valid_network n \<and> version n = v"
    using sr(3) partok by auto
  from collapse_addresses_internal_props[OF allok] obtain R where
    R: "collapse_addresses_internal (addrs @ part) = Inr R"
    and cov: "cover (set R) = cover (set (addrs @ part))"
    and len: "length R \<le> length (addrs @ part)"
    and el: "\<forall>s \<in> set R. valid_network s \<and> version s = v \<and>
               (\<exists>n \<in> set (addrs @ part). addresses n \<subseteq> addresses s)"
    by blast
  have setxs: "set xs = set full \<union> set part" by (auto simp: full_def part_def)
  have "cover (set (addrs @ part)) = cover (set full) \<union> cover (set part)"
    using sr(1) by (simp add: cover_Un)
  also have "\<dots> = cover (set xs)" by (simp add: setxs cover_Un)
  finally have c: "cover (set R) = cover (set xs)" using cov by simp
  have "length full + length part = length xs"
    unfolding full_def part_def by (rule sum_length_filter_compl)
  with len sr(2) have l: "length R \<le> length xs" by simp
  have e: "\<forall>s \<in> set R. valid_network s \<and> version s = v \<and>
              (\<exists>n \<in> set xs. addresses n \<subseteq> addresses s)"
  proof
    fix s assume s: "s \<in> set R"
    with el obtain n where vs: "valid_network s" "version s = v"
      and n: "n \<in> set (addrs @ part)" "addresses n \<subseteq> addresses s" by blast
    have "\<exists>n \<in> set xs. addresses n \<subseteq> addresses s"
    proof (cases "n \<in> set addrs")
      case True
      with sr(3) obtain n' where "n' \<in> set full" "addresses n' \<subseteq> addresses n" by blast
      with n(2) setxs show ?thesis by blast
    next
      case False
      with n(1) have "n \<in> set part" by simp
      with n(2) setxs show ?thesis by blast
    qed
    with vs show "valid_network s \<and> version s = v \<and>
              (\<exists>n \<in> set xs. addresses n \<subseteq> addresses s)" by simp
  qed
  from ca R c l e show ?thesis by simp
qed

lemma addresses_iff:
  "valid_network n \<Longrightarrow>
   (u, x) \<in> addresses n \<longleftrightarrow>
     u = version n \<and> network_address n \<le> x \<and> x < network_address n + 2 ^ hostbits n"
  by (auto simp: addresses_valid)

lemma adjacent_iff:
  assumes "valid_network n" and "valid_network m"
  shows "adjacent n m \<longleftrightarrow> version n = version m \<and>
     (network_address n + 2 ^ hostbits n = network_address m \<or>
      network_address m + 2 ^ hostbits m = network_address n)"
proof -
  have p: "(0::nat) < 2 ^ hostbits n" "(0::nat) < 2 ^ hostbits m" by simp_all
  have "broadcast_address n + 1 = network_address n + 2 ^ hostbits n"
    using broadcast_eq[OF assms(1)] p(1) by simp
  moreover have "broadcast_address m + 1 = network_address m + 2 ^ hostbits m"
    using broadcast_eq[OF assms(2)] p(2) by simp
  ultimately show ?thesis unfolding adjacent_def by simp
qed

lemma hostbits_inj:
  assumes "valid_network s" and "valid_network n" and "version s = version n"
    and "hostbits s = hostbits n"
  shows "prefixlen s = prefixlen n"
proof -
  have "prefixlen s \<le> max_prefixlen (version n)" "prefixlen n \<le> max_prefixlen (version n)"
    using assms(1,2,3) by (simp_all add: valid_network_def)
  moreover have "max_prefixlen (version n) - prefixlen s = max_prefixlen (version n) - prefixlen n"
    using assms(3,4) by (simp add: hostbits_def)
  ultimately show ?thesis by linarith
qed

text \<open>
  Among networks that neither overlap nor touch, a well-formed network that contains one of
  them and lies inside their union is that network.
\<close>

lemma covering_is_member:
  assumes ok: "\<forall>n \<in> set xs. valid_network n \<and> version n = v"
    and sep: "\<forall>n \<in> set xs. \<forall>m \<in> set xs. n \<noteq> m \<longrightarrow>
                addresses n \<inter> addresses m = {} \<and> \<not> adjacent n m"
    and vs: "valid_network s" and ver: "version s = v"
    and n: "n \<in> set xs" and sub: "addresses n \<subseteq> addresses s"
    and cov: "addresses s \<subseteq> cover (set xs)"
  shows "s = n"
proof -
  from ok n have vn: "valid_network n" and vern: "version n = v" by auto
  define a W a' W' where "a = network_address s" and "W = (2::nat) ^ hostbits s"
    and "a' = network_address n" and "W' = (2::nat) ^ hostbits n"
  have Wpos: "0 < W" "0 < W'" by (simp_all add: W_def W'_def)
  have ins: "(u, x) \<in> addresses s \<longleftrightarrow> u = v \<and> a \<le> x \<and> x < a + W" for u x
    using addresses_iff[OF vs] ver by (simp add: a_def W_def)
  have inn: "(u, x) \<in> addresses n \<longleftrightarrow> u = v \<and> a' \<le> x \<and> x < a' + W'" for u x
    using addresses_iff[OF vn] vern by (simp add: a'_def W'_def)
  have "(v, a') \<in> addresses n" using Wpos by (simp add: inn)
  with sub have "(v, a') \<in> addresses s" by blast
  then have lo: "a \<le> a'" by (simp add: ins)
  have "(v, a' + W' - 1) \<in> addresses n" using Wpos by (simp add: inn)
  with sub have "(v, a' + W' - 1) \<in> addresses s" by blast
  then have "a' + W' - 1 < a + W" by (simp add: ins)
  with Wpos have hi: "a' + W' \<le> a + W" by linarith
  have other: "\<exists>m \<in> set xs. m \<noteq> n \<and> (v, x) \<in> addresses m"
    if "(v, x) \<in> addresses s" "(v, x) \<notin> addresses n" for x
  proof -
    from that(1) cov obtain m where m: "m \<in> set xs" "(v, x) \<in> addresses m"
      unfolding cover_def by blast
    with that(2) have "m \<noteq> n" by auto
    with m show ?thesis by (intro bexI[of _ m]) simp_all
  qed
  have top: "a' + W' = a + W"
  proof (rule ccontr)
    assume "a' + W' \<noteq> a + W"
    with hi have lt: "a' + W' < a + W" by simp
    have "(v, a' + W') \<in> addresses s" using lt lo by (simp add: ins)
    moreover have "(v, a' + W') \<notin> addresses n" by (simp add: inn)
    ultimately obtain m where m: "m \<in> set xs" "m \<noteq> n" "(v, a' + W') \<in> addresses m"
      using other by blast
    from ok m(1) have vm: "valid_network m" and verm: "version m = v" by auto
    from m(3) have m1: "network_address m \<le> a' + W'"
      and m2: "a' + W' < network_address m + 2 ^ hostbits m"
      using addresses_iff[OF vm] by simp_all
    from sep n m(1,2) have dj: "addresses n \<inter> addresses m = {}" and na: "\<not> adjacent n m"
      by auto
    have "(v, a' + W' - 1) \<in> addresses n" using Wpos by (simp add: inn)
    with dj have "(v, a' + W' - 1) \<notin> addresses m" by blast
    then have "\<not> (network_address m \<le> a' + W' - 1 \<and> a' + W' - 1 < network_address m + 2 ^ hostbits m)"
      using addresses_iff[OF vm] verm by simp
    with m2 have "a' + W' - 1 < network_address m" by linarith
    with m1 Wpos have "a' + W' = network_address m" by linarith
    then have "adjacent n m"
      using adjacent_iff[OF vn vm] vern verm by (simp add: a'_def W'_def)
    with na show False ..
  qed
  have bot: "a = a'"
  proof (rule ccontr)
    assume "a \<noteq> a'"
    with lo have lt: "a < a'" by simp
    have "a \<le> a' - 1 \<and> a' - 1 < a + W" using lt hi Wpos by linarith
    then have "(v, a' - 1) \<in> addresses s" by (simp add: ins)
    moreover have "(v, a' - 1) \<notin> addresses n" using lt by (simp add: inn)
    ultimately obtain m where m: "m \<in> set xs" "m \<noteq> n" "(v, a' - 1) \<in> addresses m"
      using other by blast
    from ok m(1) have vm: "valid_network m" and verm: "version m = v" by auto
    from m(3) have m1: "network_address m \<le> a' - 1"
      and m2: "a' - 1 < network_address m + 2 ^ hostbits m"
      using addresses_iff[OF vm] by simp_all
    from sep n m(1,2) have dj: "addresses n \<inter> addresses m = {}" and na: "\<not> adjacent n m"
      by auto
    have "(v, a') \<in> addresses n" using Wpos by (simp add: inn)
    with dj have "(v, a') \<notin> addresses m" by blast
    then have "\<not> (network_address m \<le> a' \<and> a' < network_address m + 2 ^ hostbits m)"
      using addresses_iff[OF vm] verm by simp
    with m1 lt have "network_address m + 2 ^ hostbits m \<le> a'" by linarith
    with m2 lt have "network_address m + 2 ^ hostbits m = a'" by linarith
    then have "adjacent n m"
      using adjacent_iff[OF vn vm] vern verm by (simp add: a'_def W'_def)
    with na show False ..
  qed
  from top bot have "W = W'" by simp
  then have "hostbits s = hostbits n" by (simp add: W_def W'_def)
  then have "prefixlen s = prefixlen n"
    using hostbits_inj[OF vs vn] ver vern by simp
  moreover have "version s = version n" using ver vern by simp
  moreover have "network_address s = network_address n" using bot unfolding a_def a'_def .
  ultimately show ?thesis by (intro network_eqI)
qed

lemma separated_unchanged:
  assumes ok: "\<forall>n \<in> set xs. valid_network n \<and> version n = v"
    and sep: "\<forall>n \<in> set xs. \<forall>m \<in> set xs. n \<noteq> m \<longrightarrow>
                addresses n \<inter> addresses m = {} \<and> \<not> adjacent n m"
    and cov: "cover (set R) = cover (set xs)"
    and el: "\<forall>s \<in> set R. valid_network s \<and> version s = v \<and>
               (\<exists>n \<in> set xs. addresses n \<subseteq> addresses s)"
  shows "set R = set xs"
proof (rule set_eqI, rule iffI)
  fix s assume sR: "s \<in> set R"
  from el sR have vs: "valid_network s" and ver: "version s = v"
    and ex: "\<exists>n \<in> set xs. addresses n \<subseteq> addresses s" by simp_all
  from ex obtain n where n: "n \<in> set xs" and sub: "addresses n \<subseteq> addresses s" ..
  have "addresses s \<subseteq> cover (set R)" using sR by (auto simp: cover_def)
  then have "addresses s \<subseteq> cover (set xs)" by (simp only: cov)
  from covering_is_member[OF ok sep vs ver n sub this] n show "s \<in> set xs" by simp
next
  fix n assume n: "n \<in> set xs"
  from ok n have vn: "valid_network n" by simp
  have own: "(version n, network_address n) \<in> addresses n" by (rule own_address[OF vn])
  have "(version n, network_address n) \<in> cover (set xs)"
    using own n by (auto simp: cover_def)
  then have "(version n, network_address n) \<in> cover (set R)" by (simp only: cov)
  then obtain s where sR: "s \<in> set R" and ins: "(version n, network_address n) \<in> addresses s"
    by (auto simp: cover_def)
  from el sR have vs: "valid_network s" and ver: "version s = v"
    and ex: "\<exists>n \<in> set xs. addresses n \<subseteq> addresses s" by simp_all
  from ex obtain n' where n': "n' \<in> set xs" and sub: "addresses n' \<subseteq> addresses s" ..
  have "addresses s \<subseteq> cover (set R)" using sR by (auto simp: cover_def)
  then have "addresses s \<subseteq> cover (set xs)" by (simp only: cov)
  from covering_is_member[OF ok sep vs ver n' sub this] n' have sx: "s \<in> set xs" by simp
  have "s = n"
  proof (rule ccontr)
    assume ne: "s \<noteq> n"
    from sep sx have "\<forall>m \<in> set xs. s \<noteq> m \<longrightarrow>
                addresses s \<inter> addresses m = {} \<and> \<not> adjacent s m" by (rule bspec)
    from bspec[OF this n] ne have "addresses s \<inter> addresses n = {}" by simp
    with own ins show False by auto
  qed
  with sR show "n \<in> set R" by simp
qed

lemma parsed_keys:
  "fst ` set (parsed_entries ip tbl) = {n. \<exists>k \<in> fst ` set tbl. ip k = Some n}"
proof (induction tbl)
  case Nil
  show ?case by (simp add: parsed_entries_Nil)
next
  case (Cons x tbl)
  obtain k info where x: "x = (k, info)" by (cases x)
  show ?case
  proof (cases "ip k")
    case None
    then show ?thesis using Cons.IH by (auto simp: x parsed_entries_Cons)
  next
    case (Some n)
    then show ?thesis using Cons.IH by (auto simp: x parsed_entries_Cons)
  qed
qed

lemma parse_table_keys:
  "fst ` set (parse_table ip tbl acc) = fst ` set acc \<union> fst ` set (parsed_entries ip tbl)"
proof (induction tbl arbitrary: acc)
  case Nil
  show ?case by (simp add: parsed_entries_Nil)
next
  case (Cons x tbl)
  obtain k info where x: "x = (k, info)" by (cases x)
  show ?case
  proof (cases "ip k")
    case None
    then show ?thesis using Cons.IH[of acc] by (simp add: x parsed_entries_Cons)
  next
    case (Some n)
    have "fst ` set (parse_table ip (x # tbl) acc) =
          fst ` set (AList.update n info acc) \<union> fst ` set (parsed_entries ip tbl)"
      using Cons.IH[of "AList.update n info acc"] by (simp add: x Some)
    also have "\<dots> = fst ` set acc \<union> fst ` set (parsed_entries ip (x # tbl))"
      by (simp add: x Some parsed_entries_Cons dom_update)
    finally show ?thesis .
  qed
qed

lemma length_update_le: "length (AList.update k v al) \<le> Suc (length al)"
  by (induction al) auto

lemma parse_table_length: "length (parse_table ip tbl acc) \<le> length acc + length tbl"
proof (induction tbl arbitrary: acc)
  case Nil
  show ?case by simp
next
  case (Cons x tbl)
  obtain k info where x: "x = (k, info)" by (cases x)
  show ?case
  proof (cases "ip k")
    case None
    then show ?thesis using Cons.IH[of acc] by (simp add: x)
  next
    case (Some n)
    have "length (parse_table ip (x # tbl) acc) \<le> length (AList.update n info acc) + length tbl"
      using Cons.IH[of "AList.update n info acc"] by (simp add: x Some)
    also have "\<dots> \<le> Suc (length acc) + length tbl"
      using length_update_le[of n info acc] by simp
    finally show ?thesis by simp
  qed
qed

lemma contains_of_subset:
  assumes vn: "valid_network n" and vs: "valid_network s"
    and ver: "version n = version s" and sub: "addresses n \<subseteq> addresses s"
  shows "contains_net s n"
proof -
  have lo: "(version n, network_address n) \<in> addresses n" by (rule own_address[OF vn])
  have "network_address n \<le> broadcast_address n"
    unfolding broadcast_eq[OF vn] by (rule le_add1)
  then have hi: "(version n, broadcast_address n) \<in> addresses n" by (simp add: addresses_def)
  from lo sub have "(version n, network_address n) \<in> addresses s" by blast
  then have 1: "network_address s \<le> network_address n" by (simp add: addresses_def)
  from hi sub have "(version n, broadcast_address n) \<in> addresses s" by blast
  then have 2: "broadcast_address n \<le> broadcast_address s" by (simp add: addresses_def)
  from ver 1 2 show ?thesis by (simp add: contains_net_def)
qed

lemma summarize_loop_total:
  assumes "\<forall>x \<in> set robj. version (fst x) = v"
    and "\<forall>s \<in> set nets. version s = v \<and> (\<exists>x \<in> set robj. contains_net s (fst x))"
  shows "\<exists>out. summarize_loop str robj nets nova = Inr out \<and>
           fst ` set out = fst ` set nova \<union> str ` set nets \<and>
           length out \<le> length nova + length nets"
  using assms(2)
proof (induction nets arbitrary: nova)
  case Nil
  show ?case by simp
next
  case (Cons s nets)
  from Cons.prems have vs: "version s = v"
    and ex: "\<exists>x \<in> set robj. contains_net s (fst x)"
    and rest: "\<forall>s \<in> set nets. version s = v \<and> (\<exists>x \<in> set robj. contains_net s (fst x))"
    by simp_all
  have "\<forall>(n, info) \<in> set robj. version n = version s"
    using assms(1) vs by auto
  then have rc: "redes_contidas robj s = Inr (filter (\<lambda>(n, info). contains_net s n) robj)"
    by (rule redes_contidas_same_version)
  from ex obtain x where "x \<in> set robj" "contains_net s (fst x)" ..
  then have "x \<in> set (filter (\<lambda>(n, info). contains_net s n) robj)"
    by (simp add: case_prod_unfold)
  then obtain m ms where f: "filter (\<lambda>(n, info). contains_net s n) robj = m # ms"
    by (cases "filter (\<lambda>(n, info). contains_net s n) robj") auto
  define e where "e = \<lparr>cost = min_key (\<lambda>c. c) (cost (snd m)) (map (\<lambda>x. cost (snd x)) ms),
                        next_hop = next_hop (snd (min_key (\<lambda>x. cost (snd x)) m ms))\<rparr>"
  have step: "summarize_loop str robj (s # nets) nova =
              summarize_loop str robj nets (AList.update (str s) e nova)"
    by (simp add: rc f e_def Let_def)
  from Cons.IH[OF rest, of "AList.update (str s) e nova"] obtain out where
    o: "summarize_loop str robj nets (AList.update (str s) e nova) = Inr out"
    and k: "fst ` set out = fst ` set (AList.update (str s) e nova) \<union> str ` set nets"
    and l: "length out \<le> length (AList.update (str s) e nova) + length nets"
    by blast
  have k': "fst ` set out = fst ` set nova \<union> str ` set (s # nets)"
    unfolding k dom_update by auto
  have l': "length out \<le> length nova + length (s # nets)"
    using l length_update_le[of "str s" e nova] by simp
  from o k' l' show ?case unfolding step by blast
qed

lemma parse_table_distinct:
  "distinct (map fst acc) \<Longrightarrow> distinct (map fst (parse_table ip tbl acc))"
proof (induction tbl arbitrary: acc)
  case Nil
  then show ?case by simp
next
  case (Cons x tbl)
  obtain k info where x: "x = (k, info)" by (cases x)
  show ?case
  proof (cases "ip k")
    case None
    then show ?thesis using Cons.IH[OF Cons.prems] by (simp add: x)
  next
    case (Some n)
    have "distinct (map fst (AList.update n info acc))"
      using Cons.prems by (rule distinct_update)
    from Cons.IH[OF this] show ?thesis by (simp add: x Some)
  qed
qed

text \<open>
  Claim C3. For a table whose parseable keys denote well-formed networks of one IP version,
  where the networks returned by \<^verbatim>\<open>collapse_addresses\<close> are read back by the parser from
  their strings: the summarizer returns a table; the addresses covered by the prefixes of
  the output are the addresses covered by the prefixes of the input; the output has no more
  entries than the input has prefixes (and entries); and if the input prefixes are pairwise
  disjoint and non-adjacent, the prefixes of the output are the prefixes of the input, its
  keys being their strings.
\<close>

theorem summarize_table_sound:
  assumes parsed: "\<forall>n \<in> fst ` set (parsed_entries ip tbl). valid_network n \<and> version n = v"
    and printed: "\<forall>summarized. collapse_addresses (map fst (parse_table ip tbl [])) = Inr summarized \<longrightarrow>
                    (\<forall>n \<in> set summarized. ip (str n) = Some n)"
  shows "\<exists>out. summarize_table ip str tbl = Inr out \<and>
           (\<Union>n \<in> fst ` set (parsed_entries ip out). addresses n) =
             (\<Union>n \<in> fst ` set (parsed_entries ip tbl). addresses n) \<and>
           length out \<le> card (fst ` set (parsed_entries ip tbl)) \<and>
           length out \<le> length tbl \<and>
           ((\<forall>n \<in> fst ` set (parsed_entries ip tbl). \<forall>m \<in> fst ` set (parsed_entries ip tbl).
               n \<noteq> m \<longrightarrow> addresses n \<inter> addresses m = {} \<and> \<not> adjacent n m) \<longrightarrow>
            fst ` set (parsed_entries ip out) = fst ` set (parsed_entries ip tbl) \<and>
            fst ` set out = str ` fst ` set (parsed_entries ip tbl))"
proof -
  define robj where "robj = parse_table ip tbl []"
  define xs where "xs = map fst robj"
  define P where "P = fst ` set (parsed_entries ip tbl)"
  have setxs: "set xs = P"
    using parse_table_keys[of ip tbl "[]"] by (simp add: xs_def robj_def P_def)
  have dist: "distinct xs"
    using parse_table_distinct[of "[]" ip tbl] by (simp add: xs_def robj_def)
  have lenxs: "length xs = card P"
    using distinct_card[OF dist] setxs by simp
  have lentbl: "length xs \<le> length tbl"
    using parse_table_length[of ip tbl "[]"] by (simp add: xs_def robj_def)
  have ok: "\<forall>n \<in> set xs. valid_network n \<and> version n = v"
    using parsed unfolding setxs P_def .
  from collapse_addresses_props[OF ok] obtain R where
    R: "collapse_addresses xs = Inr R"
    and cov: "cover (set R) = cover (set xs)"
    and len: "length R \<le> length xs"
    and el: "\<forall>s \<in> set R. valid_network s \<and> version s = v \<and>
               (\<exists>n \<in> set xs. addresses n \<subseteq> addresses s)"
    by blast
  have rt: "\<forall>n \<in> set R. ip (str n) = Some n"
    using printed R unfolding xs_def robj_def by blast
  have st: "summarize_table ip str tbl = summarize_loop str robj R []"
    using R by (simp add: summarize_table_def Let_def robj_def[symmetric] xs_def[symmetric])
  have vrobj: "\<forall>x \<in> set robj. version (fst x) = v"
    using ok by (simp add: xs_def)
  have members: "\<forall>s \<in> set R. version s = v \<and> (\<exists>x \<in> set robj. contains_net s (fst x))"
  proof
    fix s assume s: "s \<in> set R"
    with el obtain n where vs: "valid_network s" "version s = v"
      and n: "n \<in> set xs" "addresses n \<subseteq> addresses s" by blast
    from ok n(1) have vn: "valid_network n" "version n = v" by simp_all
    have c: "contains_net s n"
      using contains_of_subset[OF vn(1) vs(1) _ n(2)] vn(2) vs(2) by simp
    from n(1) obtain x where "x \<in> set robj" "fst x = n" by (auto simp: xs_def)
    with c have "\<exists>x \<in> set robj. contains_net s (fst x)" by blast
    with vs(2) show "version s = v \<and> (\<exists>x \<in> set robj. contains_net s (fst x))" ..
  qed
  from summarize_loop_total[OF vrobj members, of str "[]"] obtain out where
    out: "summarize_loop str robj R [] = Inr out"
    and keys: "fst ` set out = str ` set R"
    and lout: "length out \<le> length R"
    by auto
  have pout: "fst ` set (parsed_entries ip out) = set R"
  proof -
    have "fst ` set (parsed_entries ip out) = {n. \<exists>k \<in> str ` set R. ip k = Some n}"
      unfolding parsed_keys keys ..
    also have "\<dots> = set R" using rt by auto
    finally show ?thesis .
  qed
  have c1: "(\<Union>n \<in> fst ` set (parsed_entries ip out). addresses n) =
             (\<Union>n \<in> fst ` set (parsed_entries ip tbl). addresses n)"
    using cov unfolding pout setxs cover_def P_def .
  have c2: "length out \<le> card (fst ` set (parsed_entries ip tbl))"
    using lout len lenxs by (simp add: P_def)
  have c3: "length out \<le> length tbl" using lout len lentbl by simp
  have c4: "fst ` set (parsed_entries ip out) = fst ` set (parsed_entries ip tbl) \<and>
            fst ` set out = str ` fst ` set (parsed_entries ip tbl)"
    if sep: "\<forall>n \<in> fst ` set (parsed_entries ip tbl). \<forall>m \<in> fst ` set (parsed_entries ip tbl).
               n \<noteq> m \<longrightarrow> addresses n \<inter> addresses m = {} \<and> \<not> adjacent n m"
  proof -
    have sep': "\<forall>n \<in> set xs. \<forall>m \<in> set xs.
               n \<noteq> m \<longrightarrow> addresses n \<inter> addresses m = {} \<and> \<not> adjacent n m"
      using sep unfolding setxs P_def .
    have "set R = set xs" by (rule separated_unchanged[OF ok sep' cov el])
    then have "set R = fst ` set (parsed_entries ip tbl)" by (simp add: setxs P_def)
    then show ?thesis by (simp add: pout keys)
  qed
  from st out c1 c2 c3 c4 show ?thesis by (intro exI[of _ out]) simp
qed

lemma ex_router2_parsed:
  "parsed_entries ip_network_v4 (routing_table ex_router2) =
     [(Network IPv4 3232235776 24, \<lparr>cost = 0, next_hop = ''127.0.0.1:5000''\<rparr>),
      (Network IPv4 167772160 23, \<lparr>cost = 5, next_hop = ''127.0.0.1:5001''\<rparr>),
      (Network IPv4 167772160 24, \<lparr>cost = 1, next_hop = ''127.0.0.1:5002''\<rparr>)]"
  by (simp add: ex_router2_eq parsed_entries_def parse_defs net_defs)

lemma ex_router2_collapse:
  "collapse_addresses (map fst (parse_table ip_network_v4 (routing_table ex_router2) [])) =
     Inr [Network IPv4 167772160 23, Network IPv4 3232235776 24]"
  by (simp add: ex_router2_eq parse_defs net_defs collapse_addresses_def
      collapse_addresses_internal_def sorted_networks_def)

lemma ex_separated_parsed:
  "parsed_entries ip_network_v4 ex_separated =
     [(Network IPv4 167772416 24, \<lparr>cost = 0, next_hop = ''127.0.0.1:5000''\<rparr>),
      (Network IPv4 167772928 24, \<lparr>cost = 2, next_hop = ''127.0.0.1:5001''\<rparr>)]"
  by (simp add: ex_separated_def parsed_entries_def parse_defs net_defs)

lemma ex_separated_collapse:
  "collapse_addresses (map fst (parse_table ip_network_v4 ex_separated [])) =
     Inr [Network IPv4 167772416 24, Network IPv4 167772928 24]"
  by (simp add: ex_separated_def parse_defs net_defs collapse_addresses_def
      collapse_addresses_internal_def sorted_networks_def)

theorem summarize_table_sound_witness:
  "(\<exists>out. summarize_table ip_network_v4 str_network_v4 (routing_table ex_router2) = Inr out \<and>
      (\<Union>n \<in> fst ` set (parsed_entries ip_network_v4 out). addresses n) =
        (\<Union>n \<in> fst ` set (parsed_entries ip_network_v4 (routing_table ex_router2)). addresses n) \<and>
      length out \<le> 3) \<and>
   (\<exists>out. summarize_table ip_network_v4 str_network_v4 ex_separated = Inr out \<and>
      fst ` set out = {''10.0.1.0/24'', ''10.0.3.0/24''})"
proof -
  have a1: "\<forall>n \<in> fst ` set (parsed_entries ip_network_v4 (routing_table ex_router2)).
              valid_network n \<and> version n = IPv4"
    by (simp add: ex_router2_parsed valid_network_def)
  have a2: "\<forall>summarized.
      collapse_addresses (map fst (parse_table ip_network_v4 (routing_table ex_router2) [])) =
        Inr summarized \<longrightarrow>
      (\<forall>n \<in> set summarized. ip_network_v4 (str_network_v4 n) = Some n)"
    by (simp add: ex_router2_collapse parse_defs net_defs str_network_v4_def str_nat.simps)
  have b1: "\<forall>n \<in> fst ` set (parsed_entries ip_network_v4 ex_separated).
              valid_network n \<and> version n = IPv4"
    by (simp add: ex_separated_parsed valid_network_def)
  have b2: "\<forall>summarized.
      collapse_addresses (map fst (parse_table ip_network_v4 ex_separated [])) = Inr summarized \<longrightarrow>
      (\<forall>n \<in> set summarized. ip_network_v4 (str_network_v4 n) = Some n)"
    by (simp add: ex_separated_collapse parse_defs net_defs str_network_v4_def str_nat.simps)
  have b3: "\<forall>n \<in> fst ` set (parsed_entries ip_network_v4 ex_separated).
            \<forall>m \<in> fst ` set (parsed_entries ip_network_v4 ex_separated).
              n \<noteq> m \<longrightarrow> addresses n \<inter> addresses m = {} \<and> \<not> adjacent n m"
    by (simp add: ex_separated_parsed addresses_def adjacent_def net_defs Times_Int_Times)
  have c: "card (fst ` set (parsed_entries ip_network_v4 (routing_table ex_router2))) = 3"
    by (simp add: ex_router2_parsed)
  have s: "str_network_v4 ` fst ` set (parsed_entries ip_network_v4 ex_separated) =
             {''10.0.1.0/24'', ''10.0.3.0/24''}"
    by (simp add: ex_separated_parsed net_defs str_network_v4_def str_nat.simps)
  have e1: "\<exists>out. summarize_table ip_network_v4 str_network_v4 (routing_table ex_router2) = Inr out \<and>
      (\<Union>n \<in> fst ` set (parsed_entries ip_network_v4 out). addresses n) =
        (\<Union>n \<in> fst ` set (parsed_entries ip_network_v4 (routing_table ex_router2)). addresses n) \<and>
      length out \<le> 3"
    using summarize_table_sound[OF a1 a2] unfolding c
    by (elim exE conjE) (intro exI conjI; assumption)
  from summarize_table_sound[OF b1 b2] obtain out where
    o: "summarize_table ip_network_v4 str_network_v4 ex_separated = Inr out"
    and i: "(\<forall>n \<in> fst ` set (parsed_entries ip_network_v4 ex_separated).
            \<forall>m \<in> fst ` set (parsed_entries ip_network_v4 ex_separated).
              n \<noteq> m \<longrightarrow> addresses n \<inter> addresses m = {} \<and> \<not> adjacent n m) \<longrightarrow>
            fst ` set (parsed_entries ip_network_v4 out) =
              fst ` set (parsed_entries ip_network_v4 ex_separated) \<and>
            fst ` set out = str_network_v4 ` fst ` set (parsed_entries ip_network_v4 ex_separated)"
    by (elim exE conjE)
  from i b3 have "fst ` set out = str_network_v4 ` fst ` set (parsed_entries ip_network_v4 ex_separated)"
    by (rule mp[THEN conjunct2])
  then have "fst ` set out = {''10.0.1.0/24'', ''10.0.3.0/24''}" unfolding s .
  with o have e2: "\<exists>out. summarize_table ip_network_v4 str_network_v4 ex_separated = Inr out \<and>
      fst ` set out = {''10.0.1.0/24'', ''10.0.3.0/24''}" by (intro exI conjI)
  from e1 e2 show ?thesis by (rule conjI)
qed

end
